theory Spec2Isabelle
  imports Main "HOL-Library.Word" "HOL-Library.Multiset"
begin

unbundle bit_operations_syntax

section \<open>Learned Secondary Index: data model\<close>

text \<open>
  The index of \<^verbatim>\<open>include/lsi.hpp\<close> and the permutation vector of
  \<^verbatim>\<open>include/util/permvector.hpp\<close>. Keys are any linearly ordered type (the
  template parameter \<^verbatim>\<open>Key\<close>). Values of type \<^verbatim>\<open>size_t\<close> that index
  into vectors are natural numbers; the two places where the code's unsigned arithmetic
  could wrap are written with \<open>sz_add\<close> and \<open>sz_sub\<close>, which compute modulo \<open>2 ^ 64\<close>.
  The model's prediction and the two debug counters are 64-bit words.
\<close>

definition sz_add :: "nat \<Rightarrow> nat \<Rightarrow> nat" where
  "sz_add a b = (a + b) mod 2 ^ 64"

definition sz_sub :: "nat \<Rightarrow> nat \<Rightarrow> nat" where
  "sz_sub a b = nat ((int a - int b) mod 2 ^ 64)"

text \<open>
  The template parameters \<^verbatim>\<open>fingerprint_size\<close> and \<^verbatim>\<open>force_linear_search\<close> of
  \<^verbatim>\<open>LearnedSecondaryIndex\<close>, and the code it calls that is not part of the
  repository: \<open>hash\<close> is \<^verbatim>\<open>hashing::MurmurFinalizer\<close>; \<open>train\<close> is the template
  parameter \<^verbatim>\<open>Model\<close>, its \<^verbatim>\<open>train\<close> on the sorted keys followed by its
  \<^verbatim>\<open>operator()\<close>; \<open>std_sort\<close> is \<^verbatim>\<open>std::sort\<close> with the comparator
  \<^verbatim>\<open>d1.first < d2.first\<close>; \<open>bit_pack\<close> is the byte buffer that
  \<^verbatim>\<open>ci::StoreBitPacked\<close> and \<^verbatim>\<open>PutSlopBytes\<close> produce for the two lanes.
\<close>

record 'k params =
  fingerprint_size :: nat
  force_linear_search :: bool
  hash :: "'k \<Rightarrow> 64 word"
  train :: "'k list \<Rightarrow> 'k \<Rightarrow> 64 word"
  std_sort :: "('k \<times> nat) list \<Rightarrow> ('k \<times> nat) list"
  bit_pack :: "nat list \<Rightarrow> 64 word list \<Rightarrow> 8 word list"

text \<open>
  What the C++ standard promises of \<^verbatim>\<open>std::sort\<close> with this comparator: the
  result holds the same pairs, in non-decreasing order of their keys. Nothing is promised
  about the order of pairs with equal keys.
\<close>

definition std_sort_contract :: "(('k::linorder \<times> nat) list \<Rightarrow> ('k \<times> nat) list) \<Rightarrow> bool" where
  "std_sort_contract srt \<longleftrightarrow> (\<forall>xs. mset (srt xs) = mset xs \<and> sorted (map fst (srt xs)))"

subsection \<open>Fingerprinter\<close>

definition fingerprint :: "'k params \<Rightarrow> 'k \<Rightarrow> 64 word" where
  "fingerprint P v = hash P v AND (push_bit (fingerprint_size P) 1 - 1)"

definition test :: "'k params \<Rightarrow> 'k \<Rightarrow> 64 word \<Rightarrow> bool" where
  "test P v print \<longleftrightarrow> print = fingerprint P v"

subsection \<open>PermVector\<close>

text \<open>
  \<open>pv_data\<close> is the packed byte buffer \<^verbatim>\<open>_data\<close>; \<open>pv_offsets\<close> and
  \<open>pv_fingerprint_bits\<close> are the values the two readers over that buffer return.
  Reading a rank that was never stored is undefined behaviour in the source; here it is
  the error \<open>PermOutOfRange\<close>. Reading the base relation outside its range is
  \<open>BaseOutOfRange\<close>.
\<close>

datatype error = PermOutOfRange | BaseOutOfRange

record PermVector =
  pv_size :: nat
  pv_data :: "8 word list"
  pv_offsets :: "nat list"
  pv_fingerprint_bits :: "64 word list"

record Value =
  index :: nat
  fingerprint_bits :: "64 word"

definition empty_PermVector :: PermVector where
  "empty_PermVector = \<lparr>pv_size = 0, pv_data = [], pv_offsets = [], pv_fingerprint_bits = []\<rparr>"

definition deserialize :: "'k params \<Rightarrow> PermVector \<Rightarrow> nat \<Rightarrow> error + Value" where
  "deserialize P pv i =
     (if i < length (pv_offsets pv) then
        (if fingerprint_size P = 0 then
           Inr \<lparr>index = pv_offsets pv ! i, fingerprint_bits = 0\<rparr>
         else if i < length (pv_fingerprint_bits pv) then
           Inr \<lparr>index = pv_offsets pv ! i, fingerprint_bits = pv_fingerprint_bits pv ! i\<rparr>
         else Inl PermOutOfRange)
      else Inl PermOutOfRange)"

definition build :: "'k params \<Rightarrow> ('k \<times> nat) list \<Rightarrow> PermVector" where
  "build P data =
     (let offsets = map snd data;
          fbits = (if fingerprint_size P > 0 then map (\<lambda>d. fingerprint P (fst d)) data else [])
      in \<lparr>pv_size = length data, pv_data = bit_pack P offsets fbits,
          pv_offsets = offsets, pv_fingerprint_bits = fbits\<rparr>)"

definition PermVector_eq :: "PermVector \<Rightarrow> PermVector \<Rightarrow> bool" where
  "PermVector_eq a b \<longleftrightarrow> pv_data a = pv_data b \<and> pv_size a = pv_size b"

definition PermVector_ne :: "PermVector \<Rightarrow> PermVector \<Rightarrow> bool" where
  "PermVector_ne a b \<longleftrightarrow> \<not> PermVector_eq a b"

subsection \<open>The index\<close>

record 'k lsi =
  perm_vector :: PermVector
  model :: "'k \<Rightarrow> 64 word"
  max_error :: nat
  base_data_accesses :: "64 word"
  false_positive_accesses :: "64 word"

text \<open>The default-constructed index; \<open>m0\<close> is the default-constructed model.\<close>

definition empty_lsi :: "('k \<Rightarrow> 64 word) \<Rightarrow> 'k lsi" where
  "empty_lsi m0 = \<lparr>perm_vector = empty_PermVector, model = m0, max_error = 0,
                  base_data_accesses = 0, false_positive_accesses = 0\<rparr>"

subsection \<open>The lookup iterator\<close>

text \<open>
  A \<^verbatim>\<open>PermIter\<close> holds a rank and a reference to the perm vector of the index that
  made it. To tell two index objects with equal contents apart, objects live in a store
  at addresses: \<open>iter_perm_vector\<close> is the address the reference points to, and the
  store gives the perm vector found there. \<open>PermIter_eq\<close> and \<open>PermIter_ne\<close> are
  \<^verbatim>\<open>operator==\<close> and \<^verbatim>\<open>operator!=\<close> of \<^verbatim>\<open>PermIter\<close>; they compare the
  referenced vectors with \<^verbatim>\<open>PermVector::operator==\<close>.
\<close>

type_synonym addr = nat

record PermIter =
  iter_index :: nat
  iter_perm_vector :: addr

definition PermIter_eq :: "(addr \<Rightarrow> PermVector) \<Rightarrow> PermIter \<Rightarrow> PermIter \<Rightarrow> bool" where
  "PermIter_eq store a b \<longleftrightarrow>
     iter_index a = iter_index b
     \<and> PermVector_eq (store (iter_perm_vector a)) (store (iter_perm_vector b))"

definition PermIter_ne :: "(addr \<Rightarrow> PermVector) \<Rightarrow> PermIter \<Rightarrow> PermIter \<Rightarrow> bool" where
  "PermIter_ne store a b \<longleftrightarrow>
     iter_index a \<noteq> iter_index b
     \<or> PermVector_ne (store (iter_perm_vector a)) (store (iter_perm_vector b))"

text \<open>\<^verbatim>\<open>begin()\<close> and \<^verbatim>\<open>end()\<close> of the index whose perm vector is at address \<open>p\<close>.\<close>

definition begin_iter :: "addr \<Rightarrow> PermIter" where
  "begin_iter p = \<lparr>iter_index = 0, iter_perm_vector = p\<rparr>"

definition end_iter :: "(addr \<Rightarrow> PermVector) \<Rightarrow> addr \<Rightarrow> PermIter" where
  "end_iter store p = \<lparr>iter_index = pv_size (store p), iter_perm_vector = p\<rparr>"

section \<open>fit\<close>

text \<open>The first loop of \<^verbatim>\<open>fit\<close>: each key paired with its position, counted from \<open>i\<close>.\<close>

fun displacement :: "nat \<Rightarrow> 'k list \<Rightarrow> ('k \<times> nat) list" where
  "displacement i [] = []"
| "displacement i (x # xs) = (x, i) # displacement (Suc i) xs"

text \<open>
  The last loop of \<^verbatim>\<open>fit\<close>, from rank \<open>j\<close> on: \<open>clb\<close> is
  \<^verbatim>\<open>current_lower_bound\<close> and \<open>me\<close> the running \<^verbatim>\<open>max_error\<close>.
\<close>

function max_error_loop ::
  "('k \<Rightarrow> 64 word) \<Rightarrow> ('k \<times> nat) list \<Rightarrow> nat \<Rightarrow> nat \<Rightarrow> nat \<Rightarrow> nat" where
  "max_error_loop m data j clb me =
     (if j < length data then
        (let clb' = (if fst (data ! clb) \<noteq> fst (data ! j) then j else clb);
             pred = unat (m (fst (data ! j)));
             err = max pred clb' - min pred clb'
         in max_error_loop m data (Suc j) clb' (max me err))
      else me)"
  by pat_completeness auto
termination
  by (relation "measure (\<lambda>(m, data, j, clb, me). length data - j)") auto

definition fit :: "'k params \<Rightarrow> 'k list \<Rightarrow> 'k lsi \<Rightarrow> 'k lsi" where
  "fit P base idx =
     (let data = std_sort P (displacement 0 base);
          m = train P (map fst data)
      in idx\<lparr>perm_vector := build P data, model := m,
             max_error := max_error_loop m data 0 0 0\<rparr>)"

section \<open>lookup\<close>

text \<open>
  The two debug counters as a lookup updates them, with a third, ghost count of the
  reads of the base relation at a permuted position. The \<^verbatim>\<open>assert\<close> of the linear
  branch, which reads the base relation in debug builds only, is left out.
\<close>

record tally =
  accesses :: "64 word"
  false_positives :: "64 word"
  base_reads :: nat

definition incr_base_accesses :: "tally \<Rightarrow> tally" where
  "incr_base_accesses t = t\<lparr>accesses := accesses t + 1\<rparr>"

definition incr_false_positives :: "tally \<Rightarrow> tally" where
  "incr_false_positives t = t\<lparr>false_positives := false_positives t + 1\<rparr>"

text \<open>\<^verbatim>\<open>*(begin + p)\<close>: one read of the base relation.\<close>

definition read_base :: "'k list \<Rightarrow> nat \<Rightarrow> tally \<Rightarrow> error + ('k \<times> tally)" where
  "read_base base p t =
     (if p < length base then Inr (base ! p, t\<lparr>base_reads := Suc (base_reads t)\<rparr>)
      else Inl BaseOutOfRange)"

text \<open>
  \<^verbatim>\<open>ind != this->end()\<close>: both iterators refer to the perm vector of this index, which
  \<^verbatim>\<open>PermIter::operator!=\<close> compares with \<^verbatim>\<open>PermVector::operator!=\<close>.
\<close>

definition not_at_end :: "PermVector \<Rightarrow> nat \<Rightarrow> bool" where
  "not_at_end pv ind \<longleftrightarrow> ind \<noteq> pv_size pv \<or> PermVector_ne pv pv"

definition search_start :: "nat \<Rightarrow> nat \<Rightarrow> nat" where
  "search_start pred me = sz_sub pred (min pred me)"

definition search_stop :: "nat \<Rightarrow> nat \<Rightarrow> nat \<Rightarrow> nat" where
  "search_stop pred me n = min (sz_add (sz_add pred me) 1) n"

text \<open>The \<^verbatim>\<open>for (; ind < stop; ind++)\<close> loop of the linear branch.\<close>

function linear_search ::
  "'k::linorder params \<Rightarrow> bool \<Rightarrow> PermVector \<Rightarrow> 'k list \<Rightarrow> 'k \<Rightarrow> nat \<Rightarrow> nat \<Rightarrow> tally
     \<Rightarrow> error + (nat \<times> tally)" where
  "linear_search P lowerbound pv base key stop ind t =
     (if ind < stop then
        (case deserialize P pv ind of
           Inl e \<Rightarrow> Inl e
         | Inr perm_val \<Rightarrow>
             if \<not> lowerbound \<and> \<not> test P key (fingerprint_bits perm_val) then
               linear_search P lowerbound pv base key stop (Suc ind) t
             else
               (case read_base base (index perm_val) (incr_base_accesses t) of
                  Inl e \<Rightarrow> Inl e
                | Inr (v, t') \<Rightarrow>
                    if v \<ge> key then Inr (ind, t')
                    else linear_search P lowerbound pv base key stop (Suc ind)
                           (incr_false_positives t')))
      else Inr (ind, t))"
  by pat_completeness auto
termination
  by (relation "measure (\<lambda>(P, lowerbound, pv, base, key, stop, ind, t). stop - ind)") auto

text \<open>The \<^verbatim>\<open>while (start_i < stop_i)\<close> loop of the binary branch.\<close>

function binary_search ::
  "'k::linorder params \<Rightarrow> PermVector \<Rightarrow> 'k list \<Rightarrow> 'k \<Rightarrow> nat \<Rightarrow> nat \<Rightarrow> tally
     \<Rightarrow> error + (nat \<times> tally)" where
  "binary_search P pv base key start_i stop_i t =
     (if start_i < stop_i then
        (let mid_i = start_i + (stop_i - start_i) div 2 in
         case deserialize P pv mid_i of
           Inl e \<Rightarrow> Inl e
         | Inr perm_val \<Rightarrow>
             (case read_base base (index perm_val) (incr_base_accesses t) of
                Inl e \<Rightarrow> Inl e
              | Inr (probed, t') \<Rightarrow>
                  if probed < key then binary_search P pv base key (Suc mid_i) stop_i t'
                  else binary_search P pv base key start_i mid_i t'))
      else Inr (start_i, t))"
  by pat_completeness auto
termination
  by (relation "measure (\<lambda>(P, pv, base, key, start_i, stop_i, t). stop_i - start_i)") auto

text \<open>
  \<^verbatim>\<open>while (ind != this->end() && *(begin + *ind) < key) { incr_base_accesses(); ind++; }\<close>
\<close>

function completion_walk ::
  "'k::linorder params \<Rightarrow> PermVector \<Rightarrow> 'k list \<Rightarrow> 'k \<Rightarrow> nat \<Rightarrow> tally
     \<Rightarrow> error + (nat \<times> tally)" where
  "completion_walk P pv base key ind t =
     (if not_at_end pv ind then
        (case deserialize P pv ind of
           Inl e \<Rightarrow> Inl e
         | Inr perm_val \<Rightarrow>
             (case read_base base (index perm_val) t of
                Inl e \<Rightarrow> Inl e
              | Inr (v, t') \<Rightarrow>
                  if v < key then completion_walk P pv base key (Suc ind) (incr_base_accesses t')
                  else Inr (ind, t')))
      else Inr (ind, t))"
  by pat_completeness auto
termination
  by (relation "measure (\<lambda>(P, pv, base, key, ind, t). length (pv_offsets pv) - ind)")
     (auto simp: deserialize_def split: if_splits)

text \<open>\<^verbatim>\<open>if (*(begin + *ind) != key) return this->end(); return ind;\<close>\<close>

definition equality_check ::
  "'k params \<Rightarrow> PermVector \<Rightarrow> 'k list \<Rightarrow> 'k \<Rightarrow> nat \<Rightarrow> tally \<Rightarrow> error + (nat \<times> tally)" where
  "equality_check P pv base key ind t =
     (case deserialize P pv ind of
        Inl e \<Rightarrow> Inl e
      | Inr perm_val \<Rightarrow>
          (case read_base base (index perm_val) t of
             Inl e \<Rightarrow> Inl e
           | Inr (v, t') \<Rightarrow> if v \<noteq> key then Inr (pv_size pv, t') else Inr (ind, t')))"

definition finish ::
  "'k::linorder params \<Rightarrow> bool \<Rightarrow> PermVector \<Rightarrow> 'k list \<Rightarrow> 'k \<Rightarrow> nat \<Rightarrow> tally
     \<Rightarrow> error + (nat \<times> tally)" where
  "finish P lowerbound pv base key ind t =
     (if lowerbound then completion_walk P pv base key ind t
      else equality_check P pv base key ind t)"

text \<open>
  \<^verbatim>\<open>lookup<lowerbound>(begin, end, key)\<close>. The result is the rank of the returned
  iterator (rank \<open>pv_size\<close> is \<^verbatim>\<open>end()\<close>) and the tally: the two counters as the
  lookup leaves them and the number of base reads it made.
\<close>

definition lookup_tally ::
  "'k::linorder params \<Rightarrow> bool \<Rightarrow> 'k lsi \<Rightarrow> 'k list \<Rightarrow> 'k \<Rightarrow> error + (nat \<times> tally)" where
  "lookup_tally P lowerbound idx base key =
     (let pv = perm_vector idx;
          t = \<lparr>accesses = base_data_accesses idx,
               false_positives = false_positive_accesses idx, base_reads = 0\<rparr>;
          pred = unat (model idx key);
          start_i = search_start pred (max_error idx);
          stop_i = search_stop pred (max_error idx) (pv_size pv)
      in if force_linear_search P \<or> fingerprint_size P > 0 then
           (case linear_search P lowerbound pv base key stop_i start_i t of
              Inl e \<Rightarrow> Inl e
            | Inr (ind, t') \<Rightarrow> finish P lowerbound pv base key ind t')
         else
           (case binary_search P pv base key start_i stop_i t of
              Inl e \<Rightarrow> Inl e
            | Inr (ind, t') \<Rightarrow> finish P lowerbound pv base key ind t'))"

text \<open>The lookup as the caller sees it: the rank returned and the index afterwards.\<close>

definition lookup ::
  "'k::linorder params \<Rightarrow> bool \<Rightarrow> 'k lsi \<Rightarrow> 'k list \<Rightarrow> 'k \<Rightarrow> error + (nat \<times> 'k lsi)" where
  "lookup P lowerbound idx base key =
     (case lookup_tally P lowerbound idx base key of
        Inl e \<Rightarrow> Inl e
      | Inr (ind, t) \<Rightarrow>
          Inr (ind, idx\<lparr>base_data_accesses := accesses t,
                        false_positive_accesses := false_positives t\<rparr>))"

section \<open>Auxiliary notions for the proofs\<close>

text \<open>The buffer \<^verbatim>\<open>data\<close> of \<^verbatim>\<open>fit\<close> after the call of \<^verbatim>\<open>std::sort\<close>.\<close>

definition sorted_data :: "'k::linorder params \<Rightarrow> 'k list \<Rightarrow> ('k \<times> nat) list" where
  "sorted_data P base = std_sort P (displacement 0 base)"

text \<open>The keys of the base relation in rank order: \<open>base[pv[r].position]\<close> for each rank \<open>r\<close>.\<close>

definition rank_keys :: "PermVector \<Rightarrow> 'k list \<Rightarrow> 'k list" where
  "rank_keys pv base = map (\<lambda>p. base ! p) (pv_offsets pv)"

text \<open>
  What \<^verbatim>\<open>build\<close> establishes of a perm vector: its size is the number of stored
  offsets, the fingerprint lane (when there is one) is as long, and every offset is a
  position of the base relation.
\<close>

definition well_formed :: "'k params \<Rightarrow> PermVector \<Rightarrow> 'k list \<Rightarrow> bool" where
  "well_formed P pv base \<longleftrightarrow>
     pv_size pv = length (pv_offsets pv) \<and>
     (fingerprint_size P > 0 \<longrightarrow> length (pv_fingerprint_bits pv) = length (pv_offsets pv)) \<and>
     (\<forall>p \<in> set (pv_offsets pv). p < length base)"

text \<open>
  The first rank at or after \<open>i\<close> whose key is not below \<open>key\<close>, or the length of
  \<open>ks\<close> when there is none. \<open>lb_from ks key 0\<close> is the lower-bound rank of \<open>key\<close>.
\<close>

definition lb_from :: "'k::linorder list \<Rightarrow> 'k \<Rightarrow> nat \<Rightarrow> nat" where
  "lb_from ks key i = i + length (takeWhile (\<lambda>x. x < key) (drop i ks))"

text \<open>The rank of the iterator a lookup returns, without the state it leaves.\<close>

definition returned_rank :: "error + (nat \<times> 's) \<Rightarrow> error + nat" where
  "returned_rank res = (case res of Inl e \<Rightarrow> Inl e | Inr (ind, s) \<Rightarrow> Inr ind)"

text \<open>
  Where the bounded scan of the interval from \<open>start_i\<close> to \<open>stop_i\<close> ends, and what the
  step after it returns from there.
\<close>

definition scan_rank :: "'k::linorder list \<Rightarrow> 'k \<Rightarrow> nat \<Rightarrow> nat \<Rightarrow> nat" where
  "scan_rank ks key start_i stop_i =
     (if start_i \<le> stop_i then min stop_i (lb_from ks key start_i) else start_i)"

definition finish_rank :: "bool \<Rightarrow> 'k::linorder list \<Rightarrow> 'k \<Rightarrow> nat \<Rightarrow> error + nat" where
  "finish_rank lb ks key ind =
     (if lb then (if ind \<le> length ks then Inr (lb_from ks key ind) else Inl PermOutOfRange)
      else (if ind < length ks then Inr (if ks ! ind \<noteq> key then length ks else ind)
            else Inl PermOutOfRange))"

text \<open>\<open>clb\<close> is the first rank of the run of equal keys that ends just before \<open>j\<close>.\<close>

definition run_start :: "'k::linorder list \<Rightarrow> nat \<Rightarrow> nat \<Rightarrow> bool" where
  "run_start ks j clb \<longleftrightarrow>
     clb \<le> j \<and> (\<forall>r. clb \<le> r \<and> r < j \<longrightarrow> ks ! r = ks ! clb) \<and> (\<forall>r < clb. ks ! r < ks ! clb)"

text \<open>The counter of base accesses against the ghost count of base reads.\<close>

definition uncounted :: "tally \<Rightarrow> 64 word" where
  "uncounted t = of_nat (base_reads t) - accesses t"

text \<open>The same lookup started from other counter values.\<close>

definition shift :: "64 word \<Rightarrow> 64 word \<Rightarrow> tally \<Rightarrow> tally" where
  "shift a f t = t\<lparr>accesses := accesses t + a, false_positives := false_positives t + f\<rparr>"

definition shift_result :: "64 word \<Rightarrow> 64 word \<Rightarrow> error + ('a \<times> tally) \<Rightarrow> error + ('a \<times> tally)" where
  "shift_result a f res = (case res of Inl e \<Rightarrow> Inl e | Inr (j, t) \<Rightarrow> Inr (j, shift a f t))"

section \<open>Worked examples\<close>

text \<open>
  Concrete template arguments over keys of type \<open>nat\<close>, for the examples that
  accompany the theorems. \<open>linear_model\<close> predicts rank \<open>k\<close> for key \<open>k\<close>;
  \<open>cdf_model\<close> predicts the number of trained keys below \<open>k\<close>, clamped to the last
  rank; \<open>two_leaf_model\<close> is a model of two linear pieces, one for the keys below
  \<open>20\<close> and one for the others, clamped to the last rank, which predicts every key of
  \<open>0, 1, 40, 41\<close> at its rank. \<open>insertion_sort\<close> and \<open>reversing_sort\<close> both
  sort by key; they differ in the order they leave equal keys in.
\<close>

definition linear_model :: "nat list \<Rightarrow> nat \<Rightarrow> 64 word" where
  "linear_model ks k = of_nat k"

definition cdf_model :: "nat list \<Rightarrow> nat \<Rightarrow> 64 word" where
  "cdf_model ks k = of_nat (min (length (filter (\<lambda>x. x < k) ks)) (length ks - 1))"

definition two_leaf_model :: "nat list \<Rightarrow> nat \<Rightarrow> 64 word" where
  "two_leaf_model ks k = of_nat (min (if k < 20 then k else k - 38) (length ks - 1))"

definition insertion_sort :: "(nat \<times> nat) list \<Rightarrow> (nat \<times> nat) list" where
  "insertion_sort xs = sort_key fst xs"


definition example_params ::
  "(nat list \<Rightarrow> nat \<Rightarrow> 64 word) \<Rightarrow> ((nat \<times> nat) list \<Rightarrow> (nat \<times> nat) list) \<Rightarrow> bool \<Rightarrow> nat params" where
  "example_params tr srt linear =
     \<lparr>fingerprint_size = 0, force_linear_search = linear, hash = of_nat, train = tr,
      std_sort = srt, bit_pack = (\<lambda>offsets fbits. map of_nat offsets)\<rparr>"

definition untrained :: "nat \<Rightarrow> 64 word" where
  "untrained k = 0"

definition small_params :: "nat params" where
  "small_params = example_params cdf_model insertion_sort False"

definition small_base :: "nat list" where
  "small_base = [3, 1, 2]"

definition small_index :: "nat lsi" where
  "small_index = fit small_params small_base (empty_lsi untrained)"

text \<open>
  Two stores of index objects. In \<open>twin_store\<close> every address holds the perm vector
  of an index fitted on \<open>small_base\<close>. In \<open>two_index_store\<close> address \<open>0\<close> holds that
  of an index fitted on \<open>[3, 1, 2]\<close> and every other address that of an index fitted on
  \<open>[30, 10, 20]\<close>.
\<close>

definition twin_store :: "addr \<Rightarrow> PermVector" where
  "twin_store p = perm_vector (fit small_params small_base (empty_lsi untrained))"

definition two_index_store :: "addr \<Rightarrow> PermVector" where
  "two_index_store p =
     (if p = 0 then perm_vector (fit small_params [3, 1, 2] (empty_lsi untrained))
      else perm_vector (fit small_params [30, 10, 20] (empty_lsi untrained)))"

section \<open>Supporting lemmas\<close>

declare max_error_loop.simps [simp del] linear_search.simps [simp del]
  binary_search.simps [simp del] completion_walk.simps [simp del]

lemma sz_sub_le: "b \<le> a \<Longrightarrow> a < 2 ^ 64 \<Longrightarrow> sz_sub a b = a - b"
  by (simp add: sz_sub_def nat_diff_distrib' flip: of_nat_diff)

lemma sz_add_add: "sz_add (sz_add a b) c = (a + b + c) mod 2 ^ 64"
  by (simp add: sz_add_def mod_add_left_eq)

lemma search_start_unat: "search_start (unat (w :: 64 word)) me = unat w - me"
proof -
  have "unat w < 2 ^ 64" using unsigned_less [of w] by simp
  then show ?thesis by (simp add: search_start_def sz_sub_le min_def)
qed

lemma search_stop_le: "search_stop pred me n \<le> n"
  by (simp add: search_stop_def)

lemma displacement_zip: "displacement i xs = zip xs [i..<i + length xs]"
proof (induction xs arbitrary: i)
  case Nil
  then show ?case by simp
next
  case (Cons x xs)
  have "[i..<i + length (x # xs)] = i # [Suc i..<Suc i + length xs]"
    by (subst upt_rec) simp
  with Cons show ?case by simp
qed

lemma map_fst_displacement: "map fst (displacement i xs) = xs"
  by (simp add: displacement_zip)

lemma map_snd_displacement: "map snd (displacement i xs) = [i..<i + length xs]"
  by (simp add: displacement_zip)

lemma displacement_nth: "(x, p) \<in> set (displacement 0 xs) \<Longrightarrow> p < length xs \<and> xs ! p = x"
  by (auto simp: displacement_zip in_set_zip)

lemma sorted_data_mset:
  "std_sort_contract (std_sort P) \<Longrightarrow> mset (sorted_data P base) = mset (displacement 0 base)"
  by (simp add: sorted_data_def std_sort_contract_def)

lemma sorted_data_sorted:
  "std_sort_contract (std_sort P) \<Longrightarrow> sorted (map fst (sorted_data P base))"
  by (simp add: sorted_data_def std_sort_contract_def)

lemma sorted_data_length:
  assumes "std_sort_contract (std_sort P)"
  shows "length (sorted_data P base) = length base"
proof -
  have "size (mset (sorted_data P base)) = size (mset (displacement 0 base))"
    using sorted_data_mset [OF assms] by simp
  then show ?thesis by (simp add: displacement_zip)
qed

lemma sorted_data_nth:
  assumes "std_sort_contract (std_sort P)" and "r < length base"
  shows "snd (sorted_data P base ! r) < length base"
    and "base ! snd (sorted_data P base ! r) = fst (sorted_data P base ! r)"
proof -
  have "sorted_data P base ! r \<in> set (sorted_data P base)"
    using assms by (simp add: sorted_data_length)
  then have "sorted_data P base ! r \<in> set (displacement 0 base)"
    using sorted_data_mset [OF assms(1), of base] by (metis set_mset_mset)
  then have "(fst (sorted_data P base ! r), snd (sorted_data P base ! r)) \<in> set (displacement 0 base)"
    by simp
  from displacement_nth [OF this]
  show "snd (sorted_data P base ! r) < length base"
    and "base ! snd (sorted_data P base ! r) = fst (sorted_data P base ! r)" by simp_all
qed

lemma sorted_data_keys_mset:
  assumes "std_sort_contract (std_sort P)"
  shows "mset (map fst (sorted_data P base)) = mset base"
proof -
  have "mset (map fst (sorted_data P base)) = image_mset fst (mset (sorted_data P base))"
    by simp
  also have "\<dots> = image_mset fst (mset (displacement 0 base))"
    using sorted_data_mset [OF assms] by simp
  also have "\<dots> = mset (map fst (displacement 0 base))" by simp
  finally show ?thesis by (simp add: map_fst_displacement)
qed

lemma sorted_data_offsets_mset:
  assumes "std_sort_contract (std_sort P)"
  shows "mset (map snd (sorted_data P base)) = mset [0..<length base]"
proof -
  have "mset (map snd (sorted_data P base)) = image_mset snd (mset (sorted_data P base))"
    by simp
  also have "\<dots> = image_mset snd (mset (displacement 0 base))"
    using sorted_data_mset [OF assms] by simp
  also have "\<dots> = mset (map snd (displacement 0 base))" by simp
  finally show ?thesis by (simp add: map_snd_displacement)
qed

lemma fit_fields:
  "perm_vector (fit P base idx) = build P (sorted_data P base)"
  "model (fit P base idx) = train P (map fst (sorted_data P base))"
  "max_error (fit P base idx) =
     max_error_loop (train P (map fst (sorted_data P base))) (sorted_data P base) 0 0 0"
  "base_data_accesses (fit P base idx) = base_data_accesses idx"
  "false_positive_accesses (fit P base idx) = false_positive_accesses idx"
  by (simp_all add: fit_def sorted_data_def Let_def)

lemma build_fields:
  "pv_size (build P data) = length data"
  "pv_offsets (build P data) = map snd data"
  "length (pv_offsets (build P data)) = length data"
  "fingerprint_size P > 0 \<Longrightarrow> length (pv_fingerprint_bits (build P data)) = length data"
  by (simp_all add: build_def Let_def)

lemma build_well_formed:
  assumes "std_sort_contract (std_sort P)"
  shows "well_formed P (build P (sorted_data P base)) base"
proof -
  have "\<forall>p \<in> set (map snd (sorted_data P base)). p < length base"
  proof
    fix p assume "p \<in> set (map snd (sorted_data P base))"
    then have "p \<in> set [0..<length base]"
      using sorted_data_offsets_mset [OF assms, of base] by (metis set_mset_mset)
    then show "p < length base" by simp
  qed
  then show ?thesis
    by (simp add: well_formed_def build_fields)
qed

lemma build_rank_keys:
  assumes "std_sort_contract (std_sort P)"
  shows "rank_keys (build P (sorted_data P base)) base = map fst (sorted_data P base)"
proof (rule nth_equalityI)
  show "length (rank_keys (build P (sorted_data P base)) base) = length (map fst (sorted_data P base))"
    by (simp add: rank_keys_def build_fields)
next
  fix r assume "r < length (rank_keys (build P (sorted_data P base)) base)"
  then have r: "r < length base"
    by (simp add: rank_keys_def build_fields sorted_data_length [OF assms])
  then show "rank_keys (build P (sorted_data P base)) base ! r = map fst (sorted_data P base) ! r"
    using sorted_data_nth(2) [OF assms r]
    by (simp add: rank_keys_def build_fields sorted_data_length [OF assms])
qed

lemma length_rank_keys: "length (rank_keys pv base) = length (pv_offsets pv)"
  by (simp add: rank_keys_def)

subsection \<open>lb_from\<close>

lemma lb_from_end: "length ks \<le> i \<Longrightarrow> lb_from ks key i = i"
  by (simp add: lb_from_def)

lemma lb_from_step: "i < length ks \<Longrightarrow> ks ! i < key \<Longrightarrow> lb_from ks key i = lb_from ks key (Suc i)"
  by (simp add: lb_from_def flip: Cons_nth_drop_Suc)

lemma lb_from_stop: "i < length ks \<Longrightarrow> \<not> ks ! i < key \<Longrightarrow> lb_from ks key i = i"
  by (simp add: lb_from_def flip: Cons_nth_drop_Suc)

lemma lb_from_ge: "i \<le> lb_from ks key i"
  by (simp add: lb_from_def)

lemma lb_from_le: "i \<le> length ks \<Longrightarrow> lb_from ks key i \<le> length ks"
proof -
  assume "i \<le> length ks"
  have "length (takeWhile (\<lambda>x. x < key) (drop i ks)) \<le> length (drop i ks)"
    by (rule length_takeWhile_le)
  with \<open>i \<le> length ks\<close> show ?thesis by (simp add: lb_from_def)
qed

lemma lb_from_below:
  assumes "i \<le> r" and "r < lb_from ks key i"
  shows "ks ! r < key"
proof -
  let ?xs = "drop i ks"
  have r: "r - i < length (takeWhile (\<lambda>x. x < key) ?xs)"
    using assms by (simp add: lb_from_def)
  then have "takeWhile (\<lambda>x. x < key) ?xs ! (r - i) \<in> set (takeWhile (\<lambda>x. x < key) ?xs)"
    by (rule nth_mem)
  then have "takeWhile (\<lambda>x. x < key) ?xs ! (r - i) < key"
    by (rule set_takeWhileD [THEN conjunct2])
  moreover have "takeWhile (\<lambda>x. x < key) ?xs ! (r - i) = ?xs ! (r - i)"
    using r by (rule takeWhile_nth)
  moreover have "r - i < length ?xs"
    using r length_takeWhile_le [of "\<lambda>x. x < key" ?xs] by linarith
  ultimately show ?thesis using assms(1) by simp
qed

lemma lb_from_at:
  assumes "lb_from ks key i < length ks"
  shows "\<not> ks ! lb_from ks key i < key"
proof -
  let ?xs = "drop i ks"
  let ?m = "length (takeWhile (\<lambda>x. x < key) ?xs)"
  have "?m < length ?xs" using assms by (simp add: lb_from_def)
  then have "\<not> ?xs ! ?m < key" by (rule nth_length_takeWhile)
  moreover have "?xs ! ?m = ks ! (i + ?m)" using assms by (simp add: lb_from_def)
  ultimately show ?thesis by (simp add: lb_from_def)
qed

lemma lb_from_unique:
  assumes "i \<le> j" and "j \<le> length ks"
    and below: "\<And>r. i \<le> r \<Longrightarrow> r < j \<Longrightarrow> ks ! r < key"
    and at: "j < length ks \<Longrightarrow> \<not> ks ! j < key"
  shows "lb_from ks key i = j"
proof (rule ccontr)
  assume ne: "lb_from ks key i \<noteq> j"
  show False
  proof (cases "lb_from ks key i < j")
    case True
    then have "lb_from ks key i < length ks" using assms(2) by simp
    from lb_from_at [OF this] below [OF lb_from_ge True] show False by simp
  next
    case False
    with ne have "j < lb_from ks key i" by simp
    from lb_from_below [OF assms(1) this]
    have "ks ! j < key" .
    moreover have "j < length ks"
      using \<open>j < lb_from ks key i\<close> lb_from_le [of i ks key] assms by linarith
    ultimately show False using at by simp
  qed
qed

lemma lb_from_restart:
  assumes "i \<le> j" and "j \<le> lb_from ks key i"
  shows "lb_from ks key j = lb_from ks key i"
proof (cases "i \<le> length ks")
  case True
  show ?thesis
  proof (rule sym, rule lb_from_unique)
    show "i \<le> lb_from ks key j" using assms(1) lb_from_ge [of j ks key] by simp
    have "j \<le> length ks" using assms(2) lb_from_le [OF True, of key] by simp
    then show "lb_from ks key j \<le> length ks" by (rule lb_from_le)
    show "ks ! r < key" if "i \<le> r" "r < lb_from ks key j" for r
    proof (cases "r < j")
      case True
      with assms(2) have "r < lb_from ks key i" by simp
      from lb_from_below [OF that(1) this] show ?thesis .
    next
      case False
      then have "j \<le> r" by simp
      from lb_from_below [OF this that(2)] show ?thesis .
    qed
    show "\<not> ks ! lb_from ks key j < key" if "lb_from ks key j < length ks"
      using lb_from_at [OF that] .
  qed
next
  case False
  then show ?thesis using assms by (simp add: lb_from_end)
qed

lemma deserialize_ok:
  assumes "well_formed P pv base" and "i < length (pv_offsets pv)"
  shows "\<exists>fb. deserialize P pv i = Inr \<lparr>index = pv_offsets pv ! i, fingerprint_bits = fb\<rparr>
           \<and> (fingerprint_size P = 0 \<longrightarrow> fb = 0)"
  using assms by (simp add: deserialize_def well_formed_def)

lemma deserialize_out:
  "\<not> i < length (pv_offsets pv) \<Longrightarrow> deserialize P pv i = Inl PermOutOfRange"
  by (simp add: deserialize_def)

lemma read_base_ok:
  assumes "well_formed P pv base" and "i < length (pv_offsets pv)"
  shows "read_base base (pv_offsets pv ! i) t =
           Inr (rank_keys pv base ! i, t\<lparr>base_reads := Suc (base_reads t)\<rparr>)"
proof -
  have "pv_offsets pv ! i < length base"
    using assms by (simp add: well_formed_def)
  then show ?thesis using assms(2) by (simp add: read_base_def rank_keys_def)
qed

lemma not_at_end_iff: "well_formed P pv base \<Longrightarrow> not_at_end pv ind \<longleftrightarrow> ind \<noteq> length (pv_offsets pv)"
  by (simp add: not_at_end_def PermVector_ne_def PermVector_eq_def well_formed_def)

lemma test_no_fingerprint: "fingerprint_size P = 0 \<Longrightarrow> test P key 0"
  by (simp add: test_def fingerprint_def)

lemma completion_walk_result:
  assumes wf: "well_formed P pv base" and le: "ind \<le> length (pv_offsets pv)"
  shows "\<exists>t'. completion_walk P pv base key ind t = Inr (lb_from (rank_keys pv base) key ind, t')"
  using le
proof (induction "length (pv_offsets pv) - ind" arbitrary: ind t)
  case 0
  then have "ind = length (pv_offsets pv)" by simp
  then show ?case
    by (subst completion_walk.simps)
       (simp add: not_at_end_iff [OF wf] lb_from_end length_rank_keys)
next
  case (Suc d)
  then have lt: "ind < length (pv_offsets pv)" by simp
  then have lt': "ind < length (rank_keys pv base)" by (simp add: length_rank_keys)
  from deserialize_ok [OF wf lt] obtain fb where
    d: "deserialize P pv ind = Inr \<lparr>index = pv_offsets pv ! ind, fingerprint_bits = fb\<rparr>" by blast
  note r = read_base_ok [OF wf lt]
  show ?case
  proof (cases "rank_keys pv base ! ind < key")
    case True
    have "d = length (pv_offsets pv) - Suc ind" using Suc.hyps(2) by simp
    moreover have "Suc ind \<le> length (pv_offsets pv)" using lt by simp
    ultimately obtain t' where
      "completion_walk P pv base key (Suc ind)
         (incr_base_accesses (t\<lparr>base_reads := Suc (base_reads t)\<rparr>)) =
       Inr (lb_from (rank_keys pv base) key (Suc ind), t')"
      using Suc.hyps(1) by blast
    with True lt show ?thesis
      by (subst completion_walk.simps)
         (simp add: not_at_end_iff [OF wf] d r lb_from_step [OF lt' True])
  next
    case False
    with lt show ?thesis
      by (subst completion_walk.simps)
         (simp add: not_at_end_iff [OF wf] d r lb_from_stop [OF lt' False])
  qed
qed

lemma completion_walk_overrun:
  assumes wf: "well_formed P pv base" and gt: "length (pv_offsets pv) < ind"
  shows "completion_walk P pv base key ind t = Inl PermOutOfRange"
  using gt
  by (subst completion_walk.simps) (simp add: not_at_end_iff [OF wf] deserialize_out)

lemma linear_search_skip: "stop \<le> ind \<Longrightarrow> linear_search P lb pv base key stop ind t = Inr (ind, t)"
  by (subst linear_search.simps) simp

lemma binary_search_skip: "stop_i \<le> start_i \<Longrightarrow> binary_search P pv base key start_i stop_i t = Inr (start_i, t)"
  by (subst binary_search.simps) simp

lemma linear_search_result:
  assumes wf: "well_formed P pv base" and mode: "lb \<or> fingerprint_size P = 0"
    and stop: "stop \<le> length (pv_offsets pv)" and le: "ind \<le> stop"
  shows "\<exists>t'. linear_search P lb pv base key stop ind t =
           Inr (min stop (lb_from (rank_keys pv base) key ind), t')"
  using le
proof (induction "stop - ind" arbitrary: ind t)
  case 0
  then have "ind = stop" by simp
  then show ?case
    using lb_from_ge [of stop "rank_keys pv base" key]
    by (simp add: linear_search_skip min_def)
next
  case (Suc d)
  then have lts: "ind < stop" by simp
  with stop have lt: "ind < length (pv_offsets pv)" by simp
  then have lt': "ind < length (rank_keys pv base)" by (simp add: length_rank_keys)
  from deserialize_ok [OF wf lt] obtain fb where
    d: "deserialize P pv ind = Inr \<lparr>index = pv_offsets pv ! ind, fingerprint_bits = fb\<rparr>"
    and fb: "fingerprint_size P = 0 \<longrightarrow> fb = 0" by auto
  have pass: "(\<not> lb \<and> \<not> test P key fb) = False"
    using mode fb test_no_fingerprint [of P key] by auto
  note r = read_base_ok [OF wf lt]
  show ?case
  proof (cases "rank_keys pv base ! ind < key")
    case True
    have "d = stop - Suc ind" using Suc.hyps(2) by simp
    moreover have "Suc ind \<le> stop" using lts by simp
    ultimately obtain t' where
      "linear_search P lb pv base key stop (Suc ind)
         (incr_false_positives (incr_base_accesses t\<lparr>base_reads :=
            Suc (base_reads (incr_base_accesses t))\<rparr>)) =
       Inr (min stop (lb_from (rank_keys pv base) key (Suc ind)), t')"
      using Suc.hyps(1) by blast
    with True lts show ?thesis
      by (subst linear_search.simps)
         (simp add: d r pass lb_from_step [OF lt' True] not_le)
  next
    case False
    with lts show ?thesis
      by (subst linear_search.simps)
         (simp add: d r pass lb_from_stop [OF lt' False] not_le min_def)
  qed
qed

lemma binary_search_result:
  assumes wf: "well_formed P pv base" and sorted: "sorted (rank_keys pv base)"
    and stop: "stop_i \<le> length (pv_offsets pv)" and le: "start_i \<le> stop_i"
  shows "\<exists>t'. binary_search P pv base key start_i stop_i t =
           Inr (min stop_i (lb_from (rank_keys pv base) key start_i), t')"
  using le stop
proof (induction "stop_i - start_i" arbitrary: start_i stop_i t rule: less_induct)
  case less
  let ?ks = "rank_keys pv base"
  show ?case
  proof (cases "start_i < stop_i")
    case False
    with less.prems have "start_i = stop_i" by simp
    then show ?thesis
      using lb_from_ge [of stop_i ?ks key] by (simp add: binary_search_skip min_def)
  next
    case True
    define mid_i where "mid_i = start_i + (stop_i - start_i) div 2"
    have mid: "start_i \<le> mid_i" "mid_i < stop_i"
      using True by (simp_all add: mid_i_def)
    with less.prems have lt: "mid_i < length (pv_offsets pv)" by simp
    then have lt': "mid_i < length ?ks" by (simp add: length_rank_keys)
    from deserialize_ok [OF wf lt] obtain fb where
      d: "deserialize P pv mid_i = Inr \<lparr>index = pv_offsets pv ! mid_i, fingerprint_bits = fb\<rparr>"
      by blast
    note r = read_base_ok [OF wf lt]
    let ?t = "incr_base_accesses t\<lparr>base_reads := Suc (base_reads (incr_base_accesses t))\<rparr>"
    have start_le: "start_i \<le> length ?ks"
      using mid lt' by simp
    show ?thesis
    proof (cases "?ks ! mid_i < key")
      case lower: True
      have "stop_i - Suc mid_i < stop_i - start_i" using mid by simp
      moreover have "Suc mid_i \<le> stop_i" using mid by simp
      ultimately obtain t' where rec:
        "binary_search P pv base key (Suc mid_i) stop_i ?t =
           Inr (min stop_i (lb_from ?ks key (Suc mid_i)), t')"
        using less.hyps less.prems(2) by blast
      have "Suc mid_i \<le> lb_from ?ks key start_i"
      proof (rule ccontr)
        assume "\<not> Suc mid_i \<le> lb_from ?ks key start_i"
        then have a: "lb_from ?ks key start_i \<le> mid_i" by simp
        then have b: "lb_from ?ks key start_i < length ?ks" using lt' by simp
        have "?ks ! lb_from ?ks key start_i \<le> ?ks ! mid_i"
          using sorted a lt' by (simp add: sorted_iff_nth_mono)
        with lower lb_from_at [OF b] show False by simp
      qed
      then have "lb_from ?ks key (Suc mid_i) = lb_from ?ks key start_i"
        using mid(1) by (intro lb_from_restart) simp_all
      with rec lower True show ?thesis
        by (subst binary_search.simps)
           (simp add: mid_i_def [symmetric] Let_def d r)
    next
      case upper: False
      have "mid_i - start_i < stop_i - start_i" using mid by simp
      moreover have "mid_i \<le> length (pv_offsets pv)" using lt by simp
      ultimately obtain t' where rec:
        "binary_search P pv base key start_i mid_i ?t =
           Inr (min mid_i (lb_from ?ks key start_i), t')"
        using less.hyps mid(1) by blast
      have "lb_from ?ks key start_i \<le> mid_i"
      proof (rule ccontr)
        assume "\<not> lb_from ?ks key start_i \<le> mid_i"
        then have "mid_i < lb_from ?ks key start_i" by simp
        from lb_from_below [OF mid(1) this] upper show False by simp
      qed
      then have "min mid_i (lb_from ?ks key start_i) = min stop_i (lb_from ?ks key start_i)"
        using mid(2) by simp
      with rec upper True show ?thesis
        by (subst binary_search.simps)
           (simp add: mid_i_def [symmetric] Let_def d r)
    qed
  qed
qed

lemma returned_rank_simps [simp]:
  "returned_rank (Inl e) = Inl e" "returned_rank (Inr (ind, s)) = Inr ind"
  by (simp_all add: returned_rank_def)

lemma returned_rank_lookup:
  "returned_rank (lookup P lb idx base key) = returned_rank (lookup_tally P lb idx base key)"
  by (simp add: lookup_def returned_rank_def split: sum.splits prod.splits)

lemma linear_scan:
  assumes "well_formed P pv base" and "lb \<or> fingerprint_size P = 0"
    and "stop_i \<le> length (pv_offsets pv)"
  shows "\<exists>t'. linear_search P lb pv base key stop_i start_i t =
           Inr (scan_rank (rank_keys pv base) key start_i stop_i, t')"
proof (cases "start_i \<le> stop_i")
  case True
  from linear_search_result [OF assms True, of key t] True show ?thesis
    by (simp add: scan_rank_def)
next
  case False
  then show ?thesis by (simp add: scan_rank_def linear_search_skip)
qed

lemma binary_scan:
  assumes "well_formed P pv base" and "sorted (rank_keys pv base)"
    and "stop_i \<le> length (pv_offsets pv)"
  shows "\<exists>t'. binary_search P pv base key start_i stop_i t =
           Inr (scan_rank (rank_keys pv base) key start_i stop_i, t')"
proof (cases "start_i \<le> stop_i")
  case True
  from binary_search_result [OF assms True, of key t] True show ?thesis
    by (simp add: scan_rank_def)
next
  case False
  then show ?thesis by (simp add: scan_rank_def binary_search_skip)
qed

lemma equality_check_result:
  assumes wf: "well_formed P pv base"
  shows "returned_rank (equality_check P pv base key ind t) =
           finish_rank False (rank_keys pv base) key ind"
proof (cases "ind < length (pv_offsets pv)")
  case True
  from deserialize_ok [OF wf True] obtain fb where
    d: "deserialize P pv ind = Inr \<lparr>index = pv_offsets pv ! ind, fingerprint_bits = fb\<rparr>"
    by auto
  have n: "pv_size pv = length (pv_offsets pv)" using wf by (simp add: well_formed_def)
  show ?thesis using True
    by (simp add: equality_check_def d read_base_ok [OF wf True] finish_rank_def
        length_rank_keys n)
next
  case False
  then show ?thesis
    by (simp add: equality_check_def deserialize_out finish_rank_def length_rank_keys)
qed

lemma finish_result:
  assumes wf: "well_formed P pv base"
  shows "returned_rank (finish P lb pv base key ind t) = finish_rank lb (rank_keys pv base) key ind"
proof (cases lb)
  case False
  then show ?thesis by (simp add: finish_def equality_check_result [OF wf])
next
  case True
  show ?thesis
  proof (cases "ind \<le> length (pv_offsets pv)")
    case le: True
    from completion_walk_result [OF wf le, of key t] True le show ?thesis
      by (auto simp: finish_def finish_rank_def length_rank_keys)
  next
    case gt: False
    then have "length (pv_offsets pv) < ind" by simp
    from completion_walk_overrun [OF wf this] True gt show ?thesis
      by (simp add: finish_def finish_rank_def length_rank_keys)
  qed
qed

text \<open>The rank a lookup returns, in either search mode.\<close>

lemma lookup_tally_rank:
  assumes wf: "well_formed P pv base" and sorted: "sorted (rank_keys pv base)"
    and pv: "pv = perm_vector idx"
    and mode: "lb \<or> fingerprint_size P = 0"
  shows "returned_rank (lookup_tally P lb idx base key) =
           finish_rank lb (rank_keys pv base) key
             (scan_rank (rank_keys pv base) key
                (search_start (unat (model idx key)) (max_error idx))
                (search_stop (unat (model idx key)) (max_error idx) (pv_size pv)))"
proof -
  let ?start = "search_start (unat (model idx key)) (max_error idx)"
  let ?stop = "search_stop (unat (model idx key)) (max_error idx) (pv_size pv)"
  let ?t = "\<lparr>accesses = base_data_accesses idx,
             false_positives = false_positive_accesses idx, base_reads = 0\<rparr>"
  have stop: "?stop \<le> length (pv_offsets pv)"
    using wf search_stop_le [of _ _ "pv_size pv"] by (simp add: well_formed_def)
  show ?thesis
  proof (cases "force_linear_search P \<or> fingerprint_size P > 0")
    case True
    from linear_scan [OF wf mode stop, of key ?start ?t] obtain t' where
      "linear_search P lb pv base key ?stop ?start ?t =
         Inr (scan_rank (rank_keys pv base) key ?start ?stop, t')" by blast
    with True show ?thesis
      unfolding lookup_tally_def Let_def pv [symmetric]
      by (simp add: finish_result [OF wf])
  next
    case False
    from binary_scan [OF wf sorted stop, of key ?start ?t] obtain t' where
      "binary_search P pv base key ?start ?stop ?t =
         Inr (scan_rank (rank_keys pv base) key ?start ?stop, t')" by blast
    with False show ?thesis
      unfolding lookup_tally_def Let_def pv [symmetric]
      by (simp add: finish_result [OF wf])
  qed
qed

lemma scan_rank_bounds:
  assumes "start_i \<le> length ks"
  shows "start_i \<le> scan_rank ks key start_i stop_i"
    and "scan_rank ks key start_i stop_i \<le> lb_from ks key start_i"
  using lb_from_ge [of start_i ks key] by (simp_all add: scan_rank_def)

lemma lower_bound_after_scan:
  assumes "start_i \<le> length ks"
  shows "finish_rank True ks key (scan_rank ks key start_i stop_i) = Inr (lb_from ks key start_i)"
proof -
  note b = scan_rank_bounds [OF assms, of key stop_i]
  have "scan_rank ks key start_i stop_i \<le> length ks"
    using b(2) lb_from_le [OF assms, of key] by simp
  moreover have "lb_from ks key (scan_rank ks key start_i stop_i) = lb_from ks key start_i"
    using b by (rule lb_from_restart)
  ultimately show ?thesis by (simp add: finish_rank_def)
qed

lemma lower_bound_overrun:
  assumes "length ks < start_i" and "stop_i \<le> length ks"
  shows "finish_rank True ks key (scan_rank ks key start_i stop_i) = Inl PermOutOfRange"
  using assms by (simp add: finish_rank_def scan_rank_def)

subsection \<open>The fitted index\<close>

lemma fit_well_formed:
  "std_sort_contract (std_sort P) \<Longrightarrow> well_formed P (perm_vector (fit P base idx)) base"
  by (simp add: fit_fields build_well_formed)

lemma fit_rank_keys:
  "std_sort_contract (std_sort P) \<Longrightarrow>
     rank_keys (perm_vector (fit P base idx)) base = map fst (sorted_data P base)"
  by (simp add: fit_fields build_rank_keys)

lemma fit_sorted:
  "std_sort_contract (std_sort P) \<Longrightarrow> sorted (rank_keys (perm_vector (fit P base idx)) base)"
  by (simp add: fit_rank_keys sorted_data_sorted)

lemma fit_keys_mset:
  "std_sort_contract (std_sort P) \<Longrightarrow>
     mset (rank_keys (perm_vector (fit P base idx)) base) = mset base"
  by (simp only: fit_rank_keys sorted_data_keys_mset)

lemma fit_size:
  "std_sort_contract (std_sort P) \<Longrightarrow> pv_size (perm_vector (fit P base idx)) = length base"
  "std_sort_contract (std_sort P) \<Longrightarrow> length (pv_offsets (perm_vector (fit P base idx))) = length base"
  "std_sort_contract (std_sort P) \<Longrightarrow> length (rank_keys (perm_vector (fit P base idx)) base) = length base"
  by (simp_all add: fit_fields build_fields sorted_data_length length_rank_keys)

lemma rank_keys_nth:
  "r < length (pv_offsets pv) \<Longrightarrow> rank_keys pv base ! r = base ! (pv_offsets pv ! r)"
  by (simp add: rank_keys_def)

subsection \<open>The error loop of fit\<close>

lemma max_error_loop_ge: "me \<le> max_error_loop m data j clb me"
proof (induction m data j clb me rule: max_error_loop.induct)
  case (1 m data j clb me)
  show ?case
  proof (cases "j < length data")
    case True
    let ?clb = "if fst (data ! clb) \<noteq> fst (data ! j) then j else clb"
    let ?pred = "unat (m (fst (data ! j)))"
    let ?err = "max ?pred ?clb - min ?pred ?clb"
    have "max me ?err \<le> max_error_loop m data (Suc j) ?clb (max me ?err)"
      using "1.IH" [OF True refl refl refl] .
    then show ?thesis
      by (subst max_error_loop.simps) (simp add: True Let_def)
  next
    case False
    then show ?thesis by (subst max_error_loop.simps) simp
  qed
qed

lemma run_start_step:
  assumes sorted: "sorted ks" and j: "j < length ks" and inv: "run_start ks j clb"
  defines "clb' \<equiv> (if ks ! clb \<noteq> ks ! j then j else clb)"
  shows "run_start ks (Suc j) clb'" and "lb_from ks (ks ! j) 0 = clb'"
proof -
  have le: "clb \<le> j" using inv by (simp add: run_start_def)
  have run: "\<And>r. clb \<le> r \<Longrightarrow> r < j \<Longrightarrow> ks ! r = ks ! clb"
    and before: "\<And>r. r < clb \<Longrightarrow> ks ! r < ks ! clb"
    using inv unfolding run_start_def by blast+
  have mono: "ks ! clb \<le> ks ! j"
    using sorted le j by (simp add: sorted_iff_nth_mono)
  have at: "ks ! clb' = ks ! j" by (simp add: clb'_def)
  have below: "ks ! r < ks ! j" if "r < clb'" for r
  proof (cases "ks ! clb = ks ! j")
    case True
    with that before [of r] show ?thesis by (simp add: clb'_def)
  next
    case False
    with mono have lt: "ks ! clb < ks ! j" by simp
    from False that have "r < j" by (simp add: clb'_def)
    show ?thesis
    proof (cases "r < clb")
      case True
      with before [of r] lt show ?thesis by simp
    next
      case False
      then have "ks ! r = ks ! clb" using run [of r] \<open>r < j\<close> by simp
      with lt show ?thesis by simp
    qed
  qed
  have le': "clb' \<le> j" using le by (simp add: clb'_def)
  show "run_start ks (Suc j) clb'"
    unfolding run_start_def
  proof (intro conjI allI impI)
    show "clb' \<le> Suc j" using le' by simp
    show "ks ! r = ks ! clb'" if "clb' \<le> r \<and> r < Suc j" for r
    proof (cases "r = j")
      case True
      then show ?thesis by (simp add: at)
    next
      case False
      with that have "r < j" by simp
      with that have "clb' = clb" by (auto simp: clb'_def split: if_splits)
      with that \<open>r < j\<close> run [of r] show ?thesis by simp
    qed
    show "ks ! r < ks ! clb'" if "r < clb'" for r
      using below [OF that] by (simp add: at)
  qed
  show "lb_from ks (ks ! j) 0 = clb'"
  proof (rule lb_from_unique)
    show "0 \<le> clb'" by simp
    show "clb' \<le> length ks" using le' j by simp
    show "ks ! r < ks ! j" if "r < clb'" for r using below [OF that] .
    show "\<not> ks ! clb' < ks ! j" by (simp add: at)
  qed
qed

lemma max_error_loop_bound:
  "sorted (map fst data) \<Longrightarrow> run_start (map fst data) j clb \<Longrightarrow> j \<le> i \<Longrightarrow> i < length data \<Longrightarrow>
         max (unat (m (fst (data ! i)))) (lb_from (map fst data) (fst (data ! i)) 0)
           - min (unat (m (fst (data ! i)))) (lb_from (map fst data) (fst (data ! i)) 0)
         \<le> max_error_loop m data j clb me"
proof (induction m data j clb me rule: max_error_loop.induct)
  case (1 m data j clb me)
  let ?ks = "map fst data"
  let ?clb = "if fst (data ! clb) \<noteq> fst (data ! j) then j else clb"
  let ?pred = "unat (m (fst (data ! j)))"
  let ?err = "max ?pred ?clb - min ?pred ?clb"
  have j: "j < length data" using "1.prems"(3,4) by simp
  then have j': "j < length ?ks" by simp
  have clb: "clb < length data" using "1.prems"(2) j by (simp add: run_start_def)
  have sorted': "sorted ?ks" by (rule "1.prems"(1))
  have eq: "(if ?ks ! clb \<noteq> ?ks ! j then j else clb) = ?clb"
    using j clb by simp
  note step = run_start_step [OF sorted' j' "1.prems"(2), unfolded eq]
  have unfold: "max_error_loop m data j clb me = max_error_loop m data (Suc j) ?clb (max me ?err)"
    by (subst max_error_loop.simps) (simp add: j Let_def)
  show ?case
  proof (cases "i = j")
    case True
    have "?err \<le> max me ?err" by simp
    also have "\<dots> \<le> max_error_loop m data (Suc j) ?clb (max me ?err)"
      by (rule max_error_loop_ge)
    finally show ?thesis
      using step(2) j by (simp add: unfold True)
  next
    case False
    with "1.prems"(3) have "Suc j \<le> i" by simp
    from "1.IH" [OF j refl refl refl sorted' step(1) this "1.prems"(4)]
    show ?thesis by (simp add: unfold)
  qed
qed

lemma run_start_0: "run_start ks 0 0"
  by (simp add: run_start_def)

text \<open>The first rank of a key that occurs in a sorted sequence.\<close>

lemma lb_from_present:
  assumes sorted: "sorted ks" and i: "i < length ks"
  shows "lb_from ks (ks ! i) 0 \<le> i" and "ks ! lb_from ks (ks ! i) 0 = ks ! i"
proof -
  let ?r = "lb_from ks (ks ! i) 0"
  show le: "?r \<le> i"
  proof (rule ccontr)
    assume "\<not> ?r \<le> i"
    then have "i < ?r" by simp
    from lb_from_below [OF _ this] show False by simp
  qed
  then have lt: "?r < length ks" using i by simp
  have "ks ! ?r \<le> ks ! i" using sorted le i by (simp add: sorted_iff_nth_mono)
  with lb_from_at [OF lt] show "ks ! ?r = ks ! i" by simp
qed

lemma fit_max_error:
  fixes idx0 :: "'k::linorder lsi"
  assumes c: "std_sort_contract (std_sort P)" and i: "i < length base"
  defines "idx \<equiv> fit P base idx0"
  defines "ks \<equiv> rank_keys (perm_vector idx) base"
  shows "max (unat (model idx (ks ! i))) (lb_from ks (ks ! i) 0)
           - min (unat (model idx (ks ! i))) (lb_from ks (ks ! i) 0) \<le> max_error idx"
proof -
  let ?data = "sorted_data P base"
  have ks: "ks = map fst ?data" unfolding ks_def idx_def by (rule fit_rank_keys [OF c])
  have i': "i < length ?data" using i by (simp add: sorted_data_length [OF c])
  have "sorted (map fst ?data)" by (rule sorted_data_sorted [OF c])
  from max_error_loop_bound [OF this run_start_0 _ i', of "model idx" 0]
  show ?thesis using i' by (simp add: ks idx_def fit_fields)
qed

lemma sorted_takeWhile_filter:
  "sorted ks \<Longrightarrow> takeWhile (\<lambda>x. x < key) ks = filter (\<lambda>x. x < (key::'k::linorder)) ks"
proof (induction ks)
  case Nil
  then show ?case by simp
next
  case (Cons x xs)
  show ?case
  proof (cases "x < key")
    case True
    with Cons show ?thesis by simp
  next
    case False
    have "\<forall>y \<in> set xs. \<not> y < key"
      using Cons.prems False by auto
    then have "filter (\<lambda>x. x < key) xs = []" by (simp add: filter_empty_conv)
    with False show ?thesis by simp
  qed
qed

lemma lower_bound_rank_count:
  assumes "sorted ks" and "mset ks = mset base"
  shows "lb_from ks key 0 = length (filter (\<lambda>x. x < key) base)"
proof -
  have "lb_from ks key 0 = length (filter (\<lambda>x. x < key) ks)"
    using assms(1) by (simp add: lb_from_def sorted_takeWhile_filter)
  also have "\<dots> = size (filter_mset (\<lambda>x. x < key) (mset ks))"
    by (simp only: mset_filter [symmetric] size_mset)
  also have "\<dots> = size (filter_mset (\<lambda>x. x < key) (mset base))" by (simp only: assms(2))
  also have "\<dots> = length (filter (\<lambda>x. x < key) base)"
    by (simp only: mset_filter [symmetric] size_mset)
  finally show ?thesis .
qed

lemma lower_bound_rank_props:
  fixes ks :: "'k::linorder list" and key :: 'k
  defines "L \<equiv> lb_from ks key 0"
  shows "L \<le> length ks"
    and "L < length ks \<Longrightarrow> key \<le> ks ! L"
    and "0 < L \<Longrightarrow> ks ! (L - 1) < key"
    and "\<exists>x \<in> set ks. key \<le> x \<Longrightarrow> L < length ks"
    and "\<forall>x \<in> set ks. x < key \<Longrightarrow> L = length ks"
proof -
  show le: "L \<le> length ks" unfolding L_def by (rule lb_from_le) simp
  show at: "key \<le> ks ! L" if "L < length ks"
    using lb_from_at [of ks key 0] that by (simp add: L_def)
  show "ks ! (L - 1) < key" if "0 < L"
    using lb_from_below [of 0 "L - 1" ks key] that by (simp add: L_def)
  show "L < length ks" if "\<exists>x \<in> set ks. key \<le> x"
  proof (rule ccontr)
    assume "\<not> L < length ks"
    with le have eq: "L = length ks" by simp
    from that obtain x where "x \<in> set ks" "key \<le> x" by blast
    then obtain r where "r < length ks" "ks ! r = x" by (auto simp: in_set_conv_nth)
    with lb_from_below [of 0 r ks key] eq have "x < key" by (simp add: L_def)
    with \<open>key \<le> x\<close> show False by simp
  qed
  show "L = length ks" if "\<forall>x \<in> set ks. x < key"
  proof (rule ccontr)
    assume "L \<noteq> length ks"
    with le have lt: "L < length ks" by simp
    then have "ks ! L \<in> set ks" by simp
    with that have "ks ! L < key" by blast
    with at [OF lt] show False by simp
  qed
qed

text \<open>The search start never lies beyond the first rank of a key of the data.\<close>

lemma start_le_first_rank:
  fixes idx0 :: "'k::linorder lsi"
  assumes c: "std_sort_contract (std_sort P)" and i: "i < length base"
  defines "idx \<equiv> fit P base idx0"
  defines "ks \<equiv> rank_keys (perm_vector idx) base"
  shows "search_start (unat (model idx (ks ! i))) (max_error idx) \<le> lb_from ks (ks ! i) 0"
  using fit_max_error [OF c i, of idx0]
  unfolding idx_def ks_def search_start_unat by simp

lemma start_le_present:
  fixes idx0 :: "'k::linorder lsi"
  assumes c: "std_sort_contract (std_sort P)" and k: "key \<in> set base"
  defines "idx \<equiv> fit P base idx0"
  defines "ks \<equiv> rank_keys (perm_vector idx) base"
  shows "search_start (unat (model idx key)) (max_error idx) \<le> lb_from ks key 0"
proof -
  have "key \<in> set ks"
    using fit_keys_mset [OF c, of base idx0] k unfolding ks_def idx_def
    by (metis set_mset_mset)
  then obtain i where i: "i < length ks" "ks ! i = key" by (auto simp: in_set_conv_nth)
  then have "i < length base" by (simp add: ks_def idx_def fit_size [OF c])
  from start_le_first_rank [OF c this, of idx0] i(2) show ?thesis
    by (simp add: ks_def idx_def)
qed

lemma start_le_monotone:
  fixes idx0 :: "'k::linorder lsi"
  assumes c: "std_sort_contract (std_sort P)" and k: "\<exists>x \<in> set base. key \<le> x"
  defines "idx \<equiv> fit P base idx0"
  defines "ks \<equiv> rank_keys (perm_vector idx) base"
  assumes mono: "mono (model idx)"
  shows "search_start (unat (model idx key)) (max_error idx) \<le> lb_from ks key 0"
proof -
  let ?L = "lb_from ks key 0"
  have set: "set ks = set base"
    using fit_keys_mset [OF c, of base idx0] unfolding ks_def idx_def
    by (metis set_mset_mset)
  with k have "\<exists>x \<in> set ks. key \<le> x" by simp
  then have lt: "?L < length ks" by (rule lower_bound_rank_props(4))
  then have ge: "key \<le> ks ! ?L" by (rule lower_bound_rank_props(2))
  have first: "lb_from ks (ks ! ?L) 0 = ?L"
  proof (rule lb_from_unique)
    show "0 \<le> ?L" by simp
    show "?L \<le> length ks" using lt by simp
    show "ks ! r < ks ! ?L" if "0 \<le> r" "r < ?L" for r
      using lb_from_below [OF that] ge by simp
    show "\<not> ks ! ?L < ks ! ?L" by simp
  qed
  have "?L < length base" using lt by (simp add: ks_def idx_def fit_size [OF c])
  from start_le_first_rank [OF c this, of idx0]
  have "search_start (unat (model idx (ks ! ?L))) (max_error idx) \<le> ?L"
    by (simp add: ks_def [symmetric] idx_def [symmetric] first)
  moreover have "unat (model idx key) \<le> unat (model idx (ks ! ?L))"
    using mono ge by (simp add: mono_def word_le_nat_alt)
  ultimately show ?thesis by (simp add: search_start_unat)
qed

lemma returned_rank_InrD:
  "returned_rank (lookup P lb idx base key) = Inr it \<Longrightarrow> \<exists>idx'. lookup P lb idx base key = Inr (it, idx')"
  by (cases "lookup P lb idx base key") (auto simp: returned_rank_def)


text \<open>The rank returned by a lower-bound lookup on a fitted index.\<close>

lemma fit_lower_bound_rank:
  fixes P :: "'k::linorder params" and base :: "'k list" and idx0 :: "'k lsi" and key :: 'k
  assumes c: "std_sort_contract (std_sort P)"
  defines "idx \<equiv> fit P base idx0"
  defines "ks \<equiv> rank_keys (perm_vector idx) base"
  defines "start_i \<equiv> search_start (unat (model idx key)) (max_error idx)"
  shows "start_i \<le> length base \<Longrightarrow>
           returned_rank (lookup P True idx base key) = Inr (lb_from ks key start_i)"
    and "length base < start_i \<Longrightarrow>
           returned_rank (lookup P True idx base key) = Inl PermOutOfRange"
proof -
  let ?pv = "perm_vector idx"
  let ?stop = "search_stop (unat (model idx key)) (max_error idx) (pv_size ?pv)"
  have wf: "well_formed P ?pv base" unfolding idx_def by (rule fit_well_formed [OF c])
  have sorted: "sorted (rank_keys ?pv base)" unfolding idx_def by (rule fit_sorted [OF c])
  have n: "length ks = length base" "pv_size ?pv = length base"
    by (simp_all add: ks_def idx_def fit_size [OF c])
  have rank: "returned_rank (lookup P True idx base key) =
      finish_rank True ks key (scan_rank ks key start_i ?stop)"
    unfolding returned_rank_lookup ks_def start_i_def
    by (rule lookup_tally_rank [OF wf sorted refl]) simp
  show "returned_rank (lookup P True idx base key) = Inr (lb_from ks key start_i)"
    if "start_i \<le> length base"
    using that by (simp add: rank lower_bound_after_scan n)
  show "returned_rank (lookup P True idx base key) = Inl PermOutOfRange"
    if "length base < start_i"
  proof -
    have "?stop \<le> length ks" using search_stop_le [of _ _ "pv_size ?pv"] by (simp add: n)
    with that show ?thesis by (simp add: rank lower_bound_overrun n)
  qed
qed

lemma insertion_sort_contract: "std_sort_contract insertion_sort"
  by (simp add: std_sort_contract_def insertion_sort_def)


lemma example_params_fields:
  "std_sort (example_params tr srt linear) = srt"
  "fingerprint_size (example_params tr srt linear) = 0"
  "force_linear_search (example_params tr srt linear) = linear"
  "train (example_params tr srt linear) = tr"
  by (simp_all add: example_params_def)

lemmas example_defs = example_params_def insertion_sort_def cdf_model_def untrained_def
  empty_lsi_def empty_PermVector_def small_params_def small_base_def small_index_def

lemmas eval_defs = fit_def build_def lookup_def lookup_tally_def finish_def equality_check_def
  deserialize_def read_base_def not_at_end_def PermVector_ne_def PermVector_eq_def search_start_def search_stop_def
  sz_add_def sz_sub_def incr_base_accesses_def incr_false_positives_def test_def fingerprint_def
  Let_def
  max_error_loop.simps linear_search.simps binary_search.simps completion_walk.simps



lemma uncounted_incr_false_positives [simp]:
  "uncounted (incr_false_positives t) = uncounted t"
  by (simp add: uncounted_def incr_false_positives_def)

lemma uncounted_incr_base_accesses [simp]:
  "uncounted (incr_base_accesses t) = uncounted t - 1"
  by (simp add: uncounted_def incr_base_accesses_def)







lemma shift_result_simps [simp]:
  "shift_result a f (Inl e) = Inl e" "shift_result a f (Inr (j, t)) = Inr (j, shift a f t)"
  by (simp_all add: shift_result_def)

lemma shift_incr [simp]:
  "incr_base_accesses (shift a f t) = shift a f (incr_base_accesses t)"
  "incr_false_positives (shift a f t) = shift a f (incr_false_positives t)"
  by (simp_all add: shift_def incr_base_accesses_def incr_false_positives_def)

lemma read_base_shift [simp]:
  "read_base base p (shift a f t) = shift_result a f (read_base base p t)"
  by (simp add: read_base_def shift_def)

lemma linear_search_shift:
  "linear_search P lb pv base key stop ind (shift a f t)
     = shift_result a f (linear_search P lb pv base key stop ind t)"
proof (induction P lb pv base key stop ind t rule: linear_search.induct)
  case (1 P lb pv base key stop ind t)
  note L = linear_search.simps [of P lb pv base key stop ind t]
  note R = linear_search.simps [of P lb pv base key stop ind "shift a f t"]
  show ?case
  proof (cases "ind < stop")
    case False
    then show ?thesis unfolding L R by simp
  next
    case True
    show ?thesis
    proof (cases "deserialize P pv ind")
      case (Inl e)
      with True show ?thesis unfolding L R by simp
    next
      case d: (Inr perm_val)
      show ?thesis
      proof (cases "\<not> lb \<and> \<not> test P key (fingerprint_bits perm_val)")
        case skip: True
        from "1.IH"(1) [OF True d skip] True d skip show ?thesis unfolding L R by simp
      next
        case False
        then have probe: "(\<not> lb \<and> \<not> test P key (fingerprint_bits perm_val)) = False"
          by simp
        show ?thesis
        proof (cases "read_base base (index perm_val) (incr_base_accesses t)")
          case (Inl e)
          with True d show ?thesis unfolding L R by (simp add: probe)
        next
          case r: (Inr vt)
          obtain v t1 where vt: "vt = (v, t1)" by (cases vt)
          show ?thesis
          proof (cases "key \<le> v")
            case stop: True
            with True d r vt show ?thesis unfolding L R by (simp add: probe)
          next
            case go: False
            from "1.IH"(2) [OF True d False r vt [symmetric] go] True d r vt go
            show ?thesis unfolding L R by (simp add: probe)
          qed
        qed
      qed
    qed
  qed
qed

lemma binary_search_shift:
  "binary_search P pv base key start_i stop_i (shift a f t)
     = shift_result a f (binary_search P pv base key start_i stop_i t)"
proof (induction P pv base key start_i stop_i t rule: binary_search.induct)
  case (1 P pv base key start_i stop_i t)
  note L = binary_search.simps [of P pv base key start_i stop_i t]
  note R = binary_search.simps [of P pv base key start_i stop_i "shift a f t"]
  define mid_i where "mid_i = start_i + (stop_i - start_i) div 2"
  show ?case
  proof (cases "start_i < stop_i")
    case False
    then show ?thesis unfolding L R by simp
  next
    case True
    show ?thesis
    proof (cases "deserialize P pv mid_i")
      case (Inl e)
      with True show ?thesis unfolding L R Let_def mid_i_def [symmetric] by simp
    next
      case d: (Inr perm_val)
      show ?thesis
      proof (cases "read_base base (index perm_val) (incr_base_accesses t)")
        case (Inl e)
        with True d show ?thesis unfolding L R Let_def mid_i_def [symmetric] by simp
      next
        case r: (Inr vt)
        obtain probed t1 where vt: "vt = (probed, t1)" by (cases vt)
        show ?thesis
        proof (cases "probed < key")
          case lower: True
          from "1.IH"(1) [OF True mid_i_def d r vt [symmetric] lower] True d r vt lower
          show ?thesis unfolding L R Let_def mid_i_def [symmetric] by simp
        next
          case upper: False
          from "1.IH"(2) [OF True mid_i_def d r vt [symmetric] upper] True d r vt upper
          show ?thesis unfolding L R Let_def mid_i_def [symmetric] by simp
        qed
      qed
    qed
  qed
qed

lemma completion_walk_shift:
  "completion_walk P pv base key ind (shift a f t)
     = shift_result a f (completion_walk P pv base key ind t)"
proof (induction P pv base key ind t rule: completion_walk.induct)
  case (1 P pv base key ind t)
  note L = completion_walk.simps [of P pv base key ind t]
  note R = completion_walk.simps [of P pv base key ind "shift a f t"]
  show ?case
  proof (cases "not_at_end pv ind")
    case False
    then show ?thesis unfolding L R by simp
  next
    case True
    show ?thesis
    proof (cases "deserialize P pv ind")
      case (Inl e)
      with True show ?thesis unfolding L R by simp
    next
      case d: (Inr perm_val)
      show ?thesis
      proof (cases "read_base base (index perm_val) t")
        case (Inl e)
        with True d show ?thesis unfolding L R by simp
      next
        case r: (Inr vt)
        obtain v t1 where vt: "vt = (v, t1)" by (cases vt)
        show ?thesis
        proof (cases "v < key")
          case lower: True
          from "1.IH" [OF True d r vt [symmetric] lower] True d r vt lower
          show ?thesis unfolding L R by simp
        next
          case stop: False
          with True d r vt show ?thesis unfolding L R by simp
        qed
      qed
    qed
  qed
qed

lemma finish_shift:
  "finish P lb pv base key ind (shift a f t) = shift_result a f (finish P lb pv base key ind t)"
  by (simp add: finish_def equality_check_def completion_walk_shift split: sum.splits prod.splits)

lemma lookup_tally_shift:
  "lookup_tally P lb
     (idx\<lparr>base_data_accesses := base_data_accesses idx + a,
          false_positive_accesses := false_positive_accesses idx + f\<rparr>) base key
   = shift_result a f (lookup_tally P lb idx base key)"
proof -
  have t0: "\<lparr>accesses = base_data_accesses idx + a,
             false_positives = false_positive_accesses idx + f, base_reads = 0\<rparr>
          = shift a f \<lparr>accesses = base_data_accesses idx,
               false_positives = false_positive_accesses idx, base_reads = 0\<rparr>"
    by (simp add: shift_def)
  show ?thesis
    by (simp add: lookup_tally_def Let_def t0 linear_search_shift binary_search_shift
          finish_shift split: sum.splits prod.splits)
qed

lemma lookup_from_zero:
  fixes idx :: "'k::linorder lsi"
  assumes "lookup P lb (idx\<lparr>base_data_accesses := 0, false_positive_accesses := 0\<rparr>) base key
             = Inr (r, z)"
  shows "lookup P lb idx base key
           = Inr (r, idx\<lparr>base_data_accesses := base_data_accesses idx + base_data_accesses z,
                        false_positive_accesses :=
                          false_positive_accesses idx + false_positive_accesses z\<rparr>)"
proof -
  let ?z = "idx\<lparr>base_data_accesses := 0, false_positive_accesses := 0\<rparr>"
  from assms obtain t where t: "lookup_tally P lb ?z base key = Inr (r, t)"
    and z: "z = ?z\<lparr>base_data_accesses := accesses t, false_positive_accesses := false_positives t\<rparr>"
    by (auto simp: lookup_def split: sum.splits)
  have "idx = ?z\<lparr>base_data_accesses := base_data_accesses ?z + base_data_accesses idx,
                  false_positive_accesses := false_positive_accesses ?z + false_positive_accesses idx\<rparr>"
    by simp
  then have "lookup_tally P lb idx base key
      = shift_result (base_data_accesses idx) (false_positive_accesses idx)
          (lookup_tally P lb ?z base key)"
    using lookup_tally_shift [where idx = ?z and a = "base_data_accesses idx"
        and f = "false_positive_accesses idx" and P = P and lb = lb and base = base and key = key]
    by simp
  with t have "lookup_tally P lb idx base key
      = Inr (r, shift (base_data_accesses idx) (false_positive_accesses idx) t)" by simp
  then show ?thesis
    by (simp add: lookup_def z shift_def add.commute)
qed

section \<open>The claims\<close>

text \<open>
  C1 (amended). Let the index be fitted on \<open>base\<close> and let \<open>key\<close> be a query whose
  search start \<open>pred - min pred max_error\<close> is not beyond its lower-bound rank, the number
  of keys of the data below \<open>key\<close>. This holds for every key that occurs in the data, and
  for every key up to the largest one when the model is monotone. Then
  \<^verbatim>\<open>lookup<true>\<close> returns the iterator \<open>it\<close> at the lower-bound rank: \<open>base[*it] \<ge> key\<close>
  when \<open>it\<close> is not \<^verbatim>\<open>end()\<close>, which is so whenever some key of the data is \<open>\<ge> key\<close>;
  \<open>base[*(it - 1)] < key\<close> when \<open>it > begin()\<close>; and \<open>it\<close> is \<^verbatim>\<open>end()\<close> when \<open>key\<close> is
  greater than every key of the data.
\<close>

theorem lower_bound_lookup:
  fixes P :: "'k::linorder params" and base :: "'k list" and idx0 :: "'k lsi" and key :: 'k
  assumes c: "std_sort_contract (std_sort P)" and idx: "idx = fit P base idx0"
    and start: "key \<in> set base
              \<or> (mono (model idx) \<and> (\<exists>x \<in> set base. key \<le> x))
              \<or> search_start (unat (model idx key)) (max_error idx)
                   \<le> length (filter (\<lambda>x. x < key) base)"
  shows "\<exists>it idx'. lookup P True idx base key = Inr (it, idx')
           \<and> it = length (filter (\<lambda>x. x < key) base)
           \<and> it \<le> pv_size (perm_vector idx)
           \<and> (it < pv_size (perm_vector idx) \<longrightarrow> key \<le> base ! (pv_offsets (perm_vector idx) ! it))
           \<and> (0 < it \<longrightarrow> base ! (pv_offsets (perm_vector idx) ! (it - 1)) < key)
           \<and> ((\<exists>x \<in> set base. key \<le> x) \<longrightarrow> it < pv_size (perm_vector idx))
           \<and> ((\<forall>x \<in> set base. x < key) \<longrightarrow> it = pv_size (perm_vector idx))"
proof -
  let ?pv = "perm_vector idx"
  let ?ks = "rank_keys ?pv base"
  let ?L = "lb_from ?ks key 0"
  let ?start = "search_start (unat (model idx key)) (max_error idx)"
  have sorted: "sorted ?ks" unfolding idx by (rule fit_sorted [OF c])
  have mset: "mset ?ks = mset base" unfolding idx by (rule fit_keys_mset [OF c])
  then have set: "set ?ks = set base" by (metis set_mset_mset)
  have n: "length ?ks = length base" "pv_size ?pv = length base"
    "length (pv_offsets ?pv) = length base"
    by (simp_all add: idx fit_size [OF c])
  have count: "?L = length (filter (\<lambda>x. x < key) base)"
    by (rule lower_bound_rank_count [OF sorted mset])
  have le: "?start \<le> ?L"
  proof -
    have "?start \<le> ?L" if "key \<in> set base"
      unfolding idx by (rule start_le_present [OF c that])
    moreover have "?start \<le> ?L" if "mono (model idx) \<and> (\<exists>x \<in> set base. key \<le> x)"
      using start_le_monotone [OF c, of base key idx0] that by (simp add: idx)
    moreover have "?start \<le> ?L" if "?start \<le> length (filter (\<lambda>x. x < key) base)"
      using that by (simp add: count)
    ultimately show ?thesis using start by blast
  qed
  note props = lower_bound_rank_props [of ?ks key]
  have "?start \<le> length base" using le props(1) n by simp
  from fit_lower_bound_rank(1) [OF c this [unfolded idx]]
  have "returned_rank (lookup P True idx base key) = Inr (lb_from ?ks key ?start)"
    by (simp add: idx)
  moreover have "lb_from ?ks key ?start = ?L"
    using le by (intro lb_from_restart) simp_all
  ultimately obtain idx' where res: "lookup P True idx base key = Inr (?L, idx')"
    using returned_rank_InrD by metis
  have p1: "?L \<le> pv_size ?pv" using props(1) n by simp
  have p2: "key \<le> base ! (pv_offsets ?pv ! ?L)" if "?L < pv_size ?pv"
    using props(2) that n by (simp add: rank_keys_nth)
  have p3: "base ! (pv_offsets ?pv ! (?L - 1)) < key" if "0 < ?L"
    using props(3) [OF that] that p1 n by (simp add: rank_keys_nth)
  have p4: "?L < pv_size ?pv" if "\<exists>x \<in> set base. key \<le> x"
    using props(4) that set n by simp
  have p5: "?L = pv_size ?pv" if "\<forall>x \<in> set base. x < key"
    using props(5) that set n by simp
  show ?thesis
    using res count p1 p2 p3 p4 p5 by (intro exI [of _ ?L] exI [of _ idx']) simp
qed

text \<open>
  The theorem at the index fitted on \<open>[3, 1, 2]\<close> and the key \<open>2\<close>, which occurs in the
  data.
\<close>

theorem lower_bound_lookup_witness:
  "std_sort_contract (std_sort small_params) \<and> 2 \<in> set small_base
   \<and> (\<exists>it idx'. lookup small_params True small_index small_base 2 = Inr (it, idx')
         \<and> it = length (filter (\<lambda>x. x < 2) small_base)
         \<and> it < pv_size (perm_vector small_index)
         \<and> 2 \<le> small_base ! (pv_offsets (perm_vector small_index) ! it)
         \<and> small_base ! (pv_offsets (perm_vector small_index) ! (it - 1)) < 2)"
proof -
  have c: "std_sort_contract (std_sort small_params)"
    by (simp add: small_params_def example_params_fields insertion_sort_contract)
  have k: "(2::nat) \<in> set small_base" by (simp add: small_base_def)
  have "\<exists>x \<in> set small_base. (2::nat) \<le> x" by (simp add: small_base_def)
  moreover have "0 < length (filter (\<lambda>x. x < 2) small_base)" by (simp add: small_base_def)
  moreover note lower_bound_lookup [OF c small_index_def disjI1 [OF k]]
  ultimately show ?thesis using c k by metis
qed

text \<open>
  C1 as stated, for every fitted index and every query, fails when the model's prediction
  for a key that is not in the data is too high. With \<open>two_leaf_model\<close> on
  \<open>[40, 0, 41, 1]\<close> every key of the data is predicted at its rank, so
  \<open>max_error\<close> is \<open>0\<close>; the query \<open>10\<close> falls to the first linear piece and is
  predicted at rank \<open>3\<close>, the last; the lookup returns rank \<open>3\<close>, the key \<open>41\<close>,
  although the key \<open>40\<close> at rank \<open>2\<close> is not below \<open>10\<close>. With \<open>linear_model\<close> on
  \<open>[0, 1, 2]\<close> the query \<open>5\<close>, greater than every key, is predicted at rank \<open>5\<close>; the
  completion walk starts beyond \<^verbatim>\<open>end()\<close> and dereferences rank \<open>5\<close> instead of
  returning \<^verbatim>\<open>end()\<close>.
\<close>

theorem lower_bound_lookup_counterexample:
  "returned_rank (lookup (example_params two_leaf_model insertion_sort False) True
      (fit (example_params two_leaf_model insertion_sort False) [40, 0, 41, 1]
         (empty_lsi untrained))
      [40, 0, 41, 1] 10) = Inr 3
   \<and> max_error (fit (example_params two_leaf_model insertion_sort False) [40, 0, 41, 1]
         (empty_lsi untrained)) = 0
   \<and> pv_offsets (perm_vector
        (fit (example_params two_leaf_model insertion_sort False) [40, 0, 41, 1]
           (empty_lsi untrained)))
      = [1, 3, 0, 2]
   \<and> \<not> [40, 0, 41, 1 :: nat] ! ([1, 3, 0, 2] ! (3 - 1)) < 10
   \<and> lookup (example_params linear_model insertion_sort False) True
      (fit (example_params linear_model insertion_sort False) [0, 1, 2] (empty_lsi untrained))
      [0, 1, 2] 5 = Inl PermOutOfRange"
  by (simp add: eval_defs example_defs returned_rank_def two_leaf_model_def linear_model_def)

text \<open>
  C2. After fit, for every key \<open>k\<close> that occurs in the data, the first rank \<open>r\<close> of
  \<open>k\<close> (the smallest rank whose key is \<open>k\<close>) lies within \<open>max_error\<close> of the
  model's prediction for \<open>k\<close>: \<open>model k - max_error \<le> r \<le> model k + max_error\<close>, with
  \<open>0 \<le> r < N\<close>.
\<close>

theorem model_error_invariant:
  fixes P :: "'k::linorder params" and base :: "'k list" and idx0 :: "'k lsi"
  assumes "std_sort_contract (std_sort P)" and "k \<in> set base" and "idx = fit P base idx0"
  shows "\<exists>r < length base.
           base ! (pv_offsets (perm_vector idx) ! r) = k
         \<and> (\<forall>r' < r. base ! (pv_offsets (perm_vector idx) ! r') \<noteq> k)
         \<and> int (unat (model idx k)) - int (max_error idx) \<le> int r
         \<and> int r \<le> int (unat (model idx k)) + int (max_error idx)"
proof -
  let ?ks = "rank_keys (perm_vector idx) base"
  note c = assms(1)
  have n: "length ?ks = length base" "length (pv_offsets (perm_vector idx)) = length base"
    by (simp_all add: assms(3) fit_size [OF c])
  have sorted: "sorted ?ks" unfolding assms(3) by (rule fit_sorted [OF c])
  have "k \<in> set ?ks"
    using fit_keys_mset [OF c, of base idx0] assms(2) unfolding assms(3)
    by (metis set_mset_mset)
  then obtain i where i: "i < length ?ks" "?ks ! i = k" by (auto simp: in_set_conv_nth)
  let ?r = "lb_from ?ks k 0"
  from lb_from_present [OF sorted i(1)] i(2)
  have r: "?r \<le> i" "?ks ! ?r = k" by simp_all
  then have lt: "?r < length base" using i(1) n by simp
  have ib: "i < length base" using i(1) n by simp
  define pred where "pred = unat (model idx k)"
  from fit_max_error [OF c ib, of idx0] i(2)
  have err: "max pred ?r - min pred ?r \<le> max_error idx"
    by (simp add: assms(3) pred_def)
  have "base ! (pv_offsets (perm_vector idx) ! ?r) = k"
    using r(2) lt n by (simp add: rank_keys_nth)
  moreover have "base ! (pv_offsets (perm_vector idx) ! r') \<noteq> k" if "r' < ?r" for r'
  proof -
    have "?ks ! r' < k" using lb_from_below [of 0 r' ?ks k] that by simp
    moreover have "r' < length (pv_offsets (perm_vector idx))" using that lt n by simp
    ultimately show ?thesis by (simp add: rank_keys_nth)
  qed
  moreover have "int pred - int (max_error idx) \<le> int ?r"
    and "int ?r \<le> int pred + int (max_error idx)"
    using err by (simp_all add: max_def min_def split: if_splits)
  ultimately show ?thesis using lt unfolding pred_def by blast
qed

text \<open>
  The theorem at the index fitted on \<open>[3, 1, 2]\<close> and the key \<open>1\<close>.
\<close>

theorem model_error_invariant_witness:
  "std_sort_contract (std_sort small_params) \<and> 1 \<in> set small_base
   \<and> (\<exists>r < length small_base.
         small_base ! (pv_offsets (perm_vector small_index) ! r) = 1
       \<and> (\<forall>r' < r. small_base ! (pv_offsets (perm_vector small_index) ! r') \<noteq> 1)
       \<and> int (unat (model small_index 1)) - int (max_error small_index) \<le> int r
       \<and> int r \<le> int (unat (model small_index 1)) + int (max_error small_index))"
proof -
  have c: "std_sort_contract (std_sort small_params)"
    by (simp add: small_params_def example_params_fields insertion_sort_contract)
  have k: "(1::nat) \<in> set small_base" by (simp add: small_base_def)
  from model_error_invariant [OF c k small_index_def] c k show ?thesis by blast
qed





text \<open>
  C5. On the same data and for every query key, in equality and in lower-bound mode, the
  lookup of the forced-linear configuration without fingerprints and the lookup of the
  binary-search configuration without fingerprints return the same rank (and read out of
  range in the same cases).
\<close>

theorem linear_binary_same_rank:
  fixes P :: "'k::linorder params" and base :: "'k list"
  assumes c: "std_sort_contract (std_sort P)"
    and lin: "Plin = P\<lparr>fingerprint_size := 0, force_linear_search := True\<rparr>"
    and bin: "Pbin = P\<lparr>fingerprint_size := 0, force_linear_search := False\<rparr>"
  shows "returned_rank (lookup Plin lowerbound (fit Plin base idx0) base key)
       = returned_rank (lookup Pbin lowerbound (fit Pbin base idx0') base key)"
proof -
  let ?ilin = "fit Plin base idx0" and ?ibin = "fit Pbin base idx0'"
  have clin: "std_sort_contract (std_sort Plin)" and cbin: "std_sort_contract (std_sort Pbin)"
    using c by (simp_all add: lin bin)
  have pv: "perm_vector ?ilin = perm_vector ?ibin"
    by (simp add: fit_def build_def Let_def lin bin)
  have m: "model ?ilin = model ?ibin" "max_error ?ilin = max_error ?ibin"
    by (simp_all add: fit_def Let_def lin bin)
  have wlin: "well_formed Plin (perm_vector ?ilin) base" by (rule fit_well_formed [OF clin])
  have wbin: "well_formed Pbin (perm_vector ?ilin) base"
    unfolding pv by (rule fit_well_formed [OF cbin])
  have sorted: "sorted (rank_keys (perm_vector ?ilin) base)" by (rule fit_sorted [OF clin])
  have flin: "lowerbound \<or> fingerprint_size Plin = 0" by (simp add: lin)
  have fbin: "lowerbound \<or> fingerprint_size Pbin = 0" by (simp add: bin)
  note l = lookup_tally_rank [OF wlin sorted refl flin, of key]
  note b = lookup_tally_rank [OF wbin sorted pv fbin, of key]
  show ?thesis
    unfolding returned_rank_lookup l b m by (rule refl)
qed

text \<open>
  The theorem at the data \<open>[3, 1, 2]\<close> and the equality lookup of the key \<open>2\<close>.
\<close>

theorem linear_binary_same_rank_witness:
  "std_sort_contract (std_sort small_params)
   \<and> returned_rank (lookup (small_params\<lparr>fingerprint_size := 0, force_linear_search := True\<rparr>) False
        (fit (small_params\<lparr>fingerprint_size := 0, force_linear_search := True\<rparr>) small_base
           (empty_lsi untrained)) small_base 2)
     = returned_rank (lookup (small_params\<lparr>fingerprint_size := 0, force_linear_search := False\<rparr>) False
        (fit (small_params\<lparr>fingerprint_size := 0, force_linear_search := False\<rparr>) small_base
           (empty_lsi untrained)) small_base 2)"
proof -
  have c: "std_sort_contract (std_sort small_params)"
    by (simp add: small_params_def example_params_fields insertion_sort_contract)
  from linear_binary_same_rank [OF c refl refl] c show ?thesis by blast
qed

text \<open>
  C6. For every query key, lookup computes the start of the search interval as
  \<open>pred - min pred max_error\<close> and its exclusive end as
  \<open>min (pred + max_error + 1) N\<close> in unsigned 64-bit arithmetic. The start equals
  \<open>max (pred - max_error) 0\<close> (the subtraction never wraps below zero), and the end
  never exceeds the size \<open>N\<close> of the index.
\<close>

theorem search_interval_saturates:
  fixes idx :: "'k lsi"
  shows "search_start (unat (model idx key)) (max_error idx)
           = unat (model idx key) - min (unat (model idx key)) (max_error idx)
       \<and> int (search_start (unat (model idx key)) (max_error idx))
           = max (int (unat (model idx key)) - int (max_error idx)) 0
       \<and> search_stop (unat (model idx key)) (max_error idx) (pv_size (perm_vector idx))
           = min ((unat (model idx key) + max_error idx + 1) mod 2 ^ 64) (pv_size (perm_vector idx))
       \<and> search_stop (unat (model idx key)) (max_error idx) (pv_size (perm_vector idx))
           \<le> pv_size (perm_vector idx)"
proof -
  define pred where "pred = unat (model idx key)"
  have start: "search_start pred (max_error idx) = pred - max_error idx"
    unfolding pred_def by (rule search_start_unat)
  have "search_start pred (max_error idx) = pred - min pred (max_error idx)"
    unfolding start by simp
  moreover have "int (search_start pred (max_error idx)) = max (int pred - int (max_error idx)) 0"
    unfolding start by simp
  moreover have "search_stop pred (max_error idx) (pv_size (perm_vector idx))
      = min ((pred + max_error idx + 1) mod 2 ^ 64) (pv_size (perm_vector idx))"
    by (simp add: search_stop_def sz_add_add)
  moreover have "search_stop pred (max_error idx) (pv_size (perm_vector idx))
      \<le> pv_size (perm_vector idx)"
    by (rule search_stop_le)
  ultimately show ?thesis unfolding pred_def by blast
qed




text \<open>
  C8 (amended). Two lookup iterators compare equal if and only if they hold the same rank
  and the perm vectors they refer to have the same byte buffer and the same size;
  \<^verbatim>\<open>operator!=\<close> is the negation. The identity of the vectors plays no part: iterators
  at the same rank (the \<^verbatim>\<open>begin()\<close> and \<^verbatim>\<open>end()\<close> iterators among them) of two index objects fitted on the
  same data compare equal wherever the two objects live.
\<close>

theorem PermIter_equality_by_content:
  "(PermIter_eq store a b \<longleftrightarrow>
      iter_index a = iter_index b
      \<and> pv_data (store (iter_perm_vector a)) = pv_data (store (iter_perm_vector b))
      \<and> pv_size (store (iter_perm_vector a)) = pv_size (store (iter_perm_vector b)))
   \<and> (PermIter_ne store a b \<longleftrightarrow> \<not> PermIter_eq store a b)
   \<and> (store p = perm_vector (fit P base idx1) \<and> store q = perm_vector (fit P base idx2)
        \<longrightarrow> PermIter_eq store \<lparr>iter_index = r, iter_perm_vector = p\<rparr>
                               \<lparr>iter_index = r, iter_perm_vector = q\<rparr>
          \<and> PermIter_eq store (begin_iter p) (begin_iter q)
          \<and> PermIter_eq store (end_iter store p) (end_iter store q))"
  by (auto simp: PermIter_eq_def PermIter_ne_def PermVector_eq_def PermVector_ne_def
      begin_iter_def end_iter_def fit_def Let_def)

text \<open>
  The theorem at two index objects, at the addresses \<open>0\<close> and \<open>1\<close>, fitted on
  \<open>[3, 1, 2]\<close>.
\<close>

theorem PermIter_equality_by_content_witness:
  "twin_store 0 = perm_vector (fit small_params small_base (empty_lsi untrained))
   \<and> twin_store 1 = perm_vector (fit small_params small_base (empty_lsi untrained))
   \<and> (0 :: addr) \<noteq> 1
   \<and> PermIter_eq twin_store \<lparr>iter_index = 2, iter_perm_vector = 0\<rparr>
                             \<lparr>iter_index = 2, iter_perm_vector = 1\<rparr>"
proof -
  have p: "twin_store 0 = perm_vector (fit small_params small_base (empty_lsi untrained))"
    and q: "twin_store 1 = perm_vector (fit small_params small_base (empty_lsi untrained))"
    by (simp_all add: twin_store_def)
  from PermIter_equality_by_content [of twin_store _ _ 0 small_params small_base
      "empty_lsi untrained" 1 "empty_lsi untrained" 2] p q
  show ?thesis by simp
qed

text \<open>
  C8 as stated, equality only for the same vector object, fails: the iterators at rank
  \<open>0\<close> of the index at address \<open>0\<close>, fitted on \<open>[3, 1, 2]\<close>, and of the index at
  address \<open>1\<close>, fitted on \<open>[30, 10, 20]\<close>, compare equal, because the two perm vectors
  hold the same permutation.
\<close>

theorem PermIter_identity_counterexample:
  "PermIter_eq two_index_store \<lparr>iter_index = 0, iter_perm_vector = 0\<rparr>
                               \<lparr>iter_index = 0, iter_perm_vector = 1\<rparr>
   \<and> iter_perm_vector \<lparr>iter_index = 0, iter_perm_vector = 0\<rparr>
       \<noteq> iter_perm_vector \<lparr>iter_index = 0, iter_perm_vector = 1\<rparr>"
  by (simp add: PermIter_eq_def two_index_store_def eval_defs example_defs)




text \<open>
  C10. Calling fit on an index, fitted before or not, rebuilds the permutation vector,
  the model and \<open>max_error\<close> from the new range alone, and leaves
  \<open>base_data_accesses\<close> and \<open>false_positive_accesses\<close> as they were: a refit does
  not reset the two debug counters. A lookup adds to the two counters what the same
  lookup counts when it starts from zero, so the counters accumulate over refits and
  lookups.
\<close>

theorem fit_keeps_counters:
  fixes idx :: "'k::linorder lsi"
  shows "base_data_accesses (fit P base idx) = base_data_accesses idx
   \<and> false_positive_accesses (fit P base idx) = false_positive_accesses idx
   \<and> base_data_accesses (fit P base (fit P' base' idx)) = base_data_accesses idx
   \<and> false_positive_accesses (fit P base (fit P' base' idx)) = false_positive_accesses idx
   \<and> perm_vector (fit P base (fit P' base' idx)) = perm_vector (fit P base idx')
   \<and> model (fit P base (fit P' base' idx)) = model (fit P base idx')
   \<and> max_error (fit P base (fit P' base' idx)) = max_error (fit P base idx')
   \<and> (lookup P lowerbound (idx\<lparr>base_data_accesses := 0, false_positive_accesses := 0\<rparr>)
          base key = Inr (r, z)
        \<longrightarrow> lookup P lowerbound idx base key
              = Inr (r, idx\<lparr>base_data_accesses := base_data_accesses idx + base_data_accesses z,
                          false_positive_accesses :=
                            false_positive_accesses idx + false_positive_accesses z\<rparr>))"
  using lookup_from_zero [of P lowerbound idx base key r z]
  by (simp add: fit_def Let_def)

text \<open>
  The theorem at the equality lookup of the key \<open>2\<close> on the index fitted on
  \<open>[3, 1, 2]\<close>, refitted afterwards.
\<close>

theorem fit_keeps_counters_witness:
  "lookup small_params False
      (small_index\<lparr>base_data_accesses := 0, false_positive_accesses := 0\<rparr>) small_base 2
     = Inr (1, small_index\<lparr>base_data_accesses := 1, false_positive_accesses := 0\<rparr>)
   \<and> lookup small_params False small_index small_base 2
     = Inr (1, small_index\<lparr>base_data_accesses := base_data_accesses small_index + 1,
                           false_positive_accesses := false_positive_accesses small_index + 0\<rparr>)
   \<and> base_data_accesses (fit small_params [5, 4]
        (small_index\<lparr>base_data_accesses := base_data_accesses small_index + 1\<rparr>))
     = base_data_accesses small_index + 1"
proof -
  have l: "lookup small_params False
      (small_index\<lparr>base_data_accesses := 0, false_positive_accesses := 0\<rparr>) small_base 2
     = Inr (1, small_index\<lparr>base_data_accesses := 1, false_positive_accesses := 0\<rparr>)"
    by (simp add: eval_defs example_defs)
  from fit_keeps_counters [where P = small_params and base = "[5, 4]"
      and idx = "small_index\<lparr>base_data_accesses := base_data_accesses small_index + 1\<rparr>"]
  have f: "base_data_accesses (fit small_params [5, 4]
        (small_index\<lparr>base_data_accesses := base_data_accesses small_index + 1\<rparr>))
     = base_data_accesses small_index + 1" by simp
  from fit_keeps_counters [where P = small_params and base = small_base and idx = small_index
      and lowerbound = False and key = 2 and r = 1
      and z = "small_index\<lparr>base_data_accesses := 1, false_positive_accesses := 0\<rparr>"] l
  have "lookup small_params False small_index small_base 2
     = Inr (1, small_index\<lparr>base_data_accesses := base_data_accesses small_index + 1,
                           false_positive_accesses := false_positive_accesses small_index + 0\<rparr>)"
    by simp
  with l f show ?thesis by blast
qed

end
